theory Spec2Isabelle
  imports Main "HOL-Library.Word"
begin

unbundle bit_operations_syntax

section \<open>Text and bytes\<close>

text \<open>
  A \<open>Buffer\<close> is a list of bytes. JavaScript text is a \<open>string\<close> whose characters are
  the code units U+0000 .. U+00FF; on that range trimming, lower-casing and the UTF-8
  encoding below are those of the language.
\<close>

type_synonym byte = "8 word"
type_synonym buffer = "byte list"

text \<open>The white space and line terminators removed by \<open>String.prototype.trim\<close>.\<close>

definition js_space :: "char \<Rightarrow> bool" where
  "js_space c =
     (c \<in> set [CHR 0x09, CHR 0x0A, CHR 0x0B, CHR 0x0C, CHR 0x0D, CHR 0x20, CHR 0xA0])"

definition js_trim :: "string \<Rightarrow> string" where
  "js_trim s = rev (dropWhile js_space (rev (dropWhile js_space s)))"

definition upper_chars :: string where
  "upper_chars = ''ABCDEFGHIJKLMNOPQRSTUVWXYZ''"

definition lower_chars :: string where
  "lower_chars = ''abcdefghijklmnopqrstuvwxyz''"

text \<open>The upper-case letters of U+00C0 .. U+00DE and their lower-case forms.\<close>

definition upper_latin :: string where
  "upper_latin =
     [CHR 0xC0, CHR 0xC1, CHR 0xC2, CHR 0xC3, CHR 0xC4, CHR 0xC5, CHR 0xC6, CHR 0xC7,
      CHR 0xC8, CHR 0xC9, CHR 0xCA, CHR 0xCB, CHR 0xCC, CHR 0xCD, CHR 0xCE, CHR 0xCF,
      CHR 0xD0, CHR 0xD1, CHR 0xD2, CHR 0xD3, CHR 0xD4, CHR 0xD5, CHR 0xD6,
      CHR 0xD8, CHR 0xD9, CHR 0xDA, CHR 0xDB, CHR 0xDC, CHR 0xDD, CHR 0xDE]"

definition lower_latin :: string where
  "lower_latin =
     [CHR 0xE0, CHR 0xE1, CHR 0xE2, CHR 0xE3, CHR 0xE4, CHR 0xE5, CHR 0xE6, CHR 0xE7,
      CHR 0xE8, CHR 0xE9, CHR 0xEA, CHR 0xEB, CHR 0xEC, CHR 0xED, CHR 0xEE, CHR 0xEF,
      CHR 0xF0, CHR 0xF1, CHR 0xF2, CHR 0xF3, CHR 0xF4, CHR 0xF5, CHR 0xF6,
      CHR 0xF8, CHR 0xF9, CHR 0xFA, CHR 0xFB, CHR 0xFC, CHR 0xFD, CHR 0xFE]"

definition lower_char :: "char \<Rightarrow> char" where
  "lower_char c =
     (case map_of (zip (upper_chars @ upper_latin) (lower_chars @ lower_latin)) c of
        Some l \<Rightarrow> l
      | None \<Rightarrow> c)"

definition js_toLowerCase :: "string \<Rightarrow> string" where
  "js_toLowerCase s = map lower_char s"

definition startsWith :: "string \<Rightarrow> string \<Rightarrow> bool" where
  "startsWith s p = (take (length p) s = p)"

text \<open>
  Decimal text of an integer, as \<open>toString()\<close> prints a bigint (and a number that is
  an integer below \<open>10^21\<close> in size).
\<close>

definition digit_char :: "int \<Rightarrow> char" where
  "digit_char d = ''0123456789'' ! nat d"

function show_digits :: "int \<Rightarrow> string" where
  "show_digits n =
     (if n < 10 then [digit_char n] else show_digits (n div 10) @ [digit_char (n mod 10)])"
  by pat_completeness auto
termination
  by (relation "measure nat") auto

declare show_digits.simps [simp del]

definition show_int :: "int \<Rightarrow> string" where
  "show_int i = (if i < 0 then CHR ''-'' # show_digits (- i) else show_digits i)"

definition hex_char :: "nat \<Rightarrow> char" where
  "hex_char d = ''0123456789abcdef'' ! d"

text \<open>\<open>buf.toString('hex')\<close>: two lower-case digits for each byte.\<close>

definition toHex :: "buffer \<Rightarrow> string" where
  "toHex bs = concat (map (\<lambda>b. [hex_char (unat b div 16), hex_char (unat b mod 16)]) bs)"

text \<open>
  Base 58, the text form of a public key: each leading zero byte is a \<open>1\<close>, the rest is
  the big-endian number in base 58.
\<close>

definition base58_alphabet :: string where
  "base58_alphabet = ''123456789ABCDEFGHJKLMNPQRSTUVWXYZabcdefghijkmnopqrstuvwxyz''"

function base58_digits :: "int \<Rightarrow> string" where
  "base58_digits n =
     (if n \<le> 0 then [] else base58_digits (n div 58) @ [base58_alphabet ! nat (n mod 58)])"
  by pat_completeness auto
termination
  by (relation "measure nat") auto

declare base58_digits.simps [simp del]

definition be_int :: "buffer \<Rightarrow> int" where
  "be_int bs = foldl (\<lambda>acc b. 256 * acc + uint b) 0 bs"

definition toBase58 :: "buffer \<Rightarrow> string" where
  "toBase58 bs =
     replicate (length (takeWhile (\<lambda>b. b = 0) bs)) (CHR ''1'') @ base58_digits (be_int bs)"

section \<open>Return decoder\<close>

text \<open>
  \<open>ReturnField\<close> and \<open>DecodedReturnField\<close>. A decoded value is text; the text that
  \<open>slice.toString("utf8")\<close> makes of a byte slice can hold any code point, so it is kept
  as \<open>Utf8Text slice\<close>.
\<close>

record ReturnField =
  fieldId :: string
  fieldName :: string
  fieldType :: string

datatype display = Text string | Utf8Text buffer

record DecodedReturnField =
  decodedName :: string
  decodedType :: string
  decodedValue :: display

text \<open>
  \<open>readBigIntFromBuffer\<close>: the loop ors each byte into the result, shifted by its
  index; reading past the end of the buffer gives \<open>undefined\<close>, which \<open>BigInt\<close> refuses.
\<close>

fun readLoop :: "buffer \<Rightarrow> nat \<Rightarrow> nat list \<Rightarrow> int \<Rightarrow> string + int" where
  "readLoop buffer offset [] result = Inr result"
| "readLoop buffer offset (i # is) result =
     (if offset + i < length buffer
      then readLoop buffer offset is (result OR push_bit (8 * i) (uint (buffer ! (offset + i))))
      else Inl ''Cannot convert undefined to a BigInt'')"

definition readBigIntFromBuffer :: "buffer \<Rightarrow> nat \<Rightarrow> nat \<Rightarrow> bool \<Rightarrow> string + int" where
  "readBigIntFromBuffer buffer offset byteLength isSigned =
     (case readLoop buffer offset [0..<byteLength] 0 of
        Inl e \<Rightarrow> Inl e
      | Inr result \<Rightarrow>
          (let max = push_bit (byteLength * 8) (1 :: int);
               threshold = drop_bit 1 max
           in if isSigned \<and> result \<ge> threshold then Inr (result - max) else Inr result))"

definition numericTypes :: "string \<Rightarrow> (nat \<times> bool) option" where
  "numericTypes =
     map_of
       [(''u8'', (1, False)), (''u16'', (2, False)), (''u32'', (4, False)),
        (''u64'', (8, False)), (''u128'', (16, False)),
        (''i8'', (1, True)), (''i16'', (2, True)), (''i32'', (4, True)),
        (''i64'', (8, True)), (''i128'', (16, True))]"

text \<open>\<open>ensureBytes\<close> throws an \<open>Error\<close>; the result is its message.\<close>

definition ensureBytes :: "buffer \<Rightarrow> nat \<Rightarrow> nat \<Rightarrow> string + unit" where
  "ensureBytes buffer offset required =
     (let remaining = int (length buffer) - int offset
      in if remaining < int required
         then Inl (''Need '' @ show_int (int required) @ '' more bytes, only ''
                   @ show_int remaining
                   @ '' left'')
         else Inr ())"

definition readUInt32LE :: "buffer \<Rightarrow> nat \<Rightarrow> nat" where
  "readUInt32LE buffer offset =
     unat (buffer ! offset) + 256 * unat (buffer ! (offset + 1))
       + 65536 * unat (buffer ! (offset + 2)) + 16777216 * unat (buffer ! (offset + 3))"

text \<open>
  The body of the \<open>try\<close> block for one field: \<open>Inl\<close> the message of the error thrown,
  \<open>Inr\<close> the decoded value and the offset after the field.
\<close>

definition decodeField :: "buffer \<Rightarrow> nat \<Rightarrow> string \<Rightarrow> string + (display \<times> nat)" where
  "decodeField buffer offset ty =
     (case numericTypes ty of
        Some (bytes, isSigned) \<Rightarrow>
          (case ensureBytes buffer offset bytes of
             Inl e \<Rightarrow> Inl e
           | Inr _ \<Rightarrow>
               (case readBigIntFromBuffer buffer offset bytes isSigned of
                  Inl e \<Rightarrow> Inl e
                | Inr v \<Rightarrow> Inr (Text (show_int v), offset + bytes)))
      | None \<Rightarrow>
          if ty = ''bool'' then
            (case ensureBytes buffer offset 1 of
               Inl e \<Rightarrow> Inl e
             | Inr _ \<Rightarrow>
                 Inr (Text (if buffer ! offset = 1 then ''true'' else ''false''), offset + 1))
          else if ty = ''pubkey'' then
            (case ensureBytes buffer offset 32 of
               Inl e \<Rightarrow> Inl e
             | Inr _ \<Rightarrow> Inr (Text (toBase58 (take 32 (drop offset buffer))), offset + 32))
          else if ty = ''string'' \<or> ty = ''bytes'' then
            (case ensureBytes buffer offset 4 of
               Inl e \<Rightarrow> Inl e
             | Inr _ \<Rightarrow>
                 (let len = readUInt32LE buffer offset;
                      offset' = offset + 4
                  in case ensureBytes buffer offset' len of
                       Inl e \<Rightarrow> Inl e
                     | Inr _ \<Rightarrow>
                         (let slice = take len (drop offset' buffer)
                          in Inr (if ty = ''string'' then Utf8Text slice else Text (toHex slice),
                                  offset' + len))))
          else Inl (''Unsupported field type '' @ [CHR 0x27] @ ty @ [CHR 0x27]))"

text \<open>
  The loop of \<open>decodeWithLayout\<close>, with its state \<open>decoded\<close> and \<open>offset\<close>: a field that
  throws is recorded with the message and ends the loop (\<open>break\<close>).
\<close>

definition displayName :: "ReturnField \<Rightarrow> DecodedReturnField list \<Rightarrow> string" where
  "displayName field decoded =
     (if js_trim (fieldName field) \<noteq> [] then js_trim (fieldName field)
      else ''field_'' @ show_int (int (length decoded) + 1))"

fun decodeLoop ::
  "buffer \<Rightarrow> ReturnField list \<Rightarrow> DecodedReturnField list \<Rightarrow> nat \<Rightarrow> DecodedReturnField list"
where
  "decodeLoop buffer [] decoded offset = decoded"
| "decodeLoop buffer (field # layout) decoded offset =
     (case decodeField buffer offset (fieldType field) of
        Inr (v, offset') \<Rightarrow>
          decodeLoop buffer layout
            (decoded @ [\<lparr>decodedName = displayName field decoded, decodedType = fieldType field,
                         decodedValue = v\<rparr>])
            offset'
      | Inl message \<Rightarrow>
          decoded @ [\<lparr>decodedName = displayName field decoded, decodedType = fieldType field,
                      decodedValue = Text (''Decode error: '' @ message)\<rparr>])"

definition decodeWithLayout :: "buffer \<Rightarrow> ReturnField list \<Rightarrow> DecodedReturnField list" where
  "decodeWithLayout buffer layout = decodeLoop buffer layout [] 0"

text \<open>
  The read cursor after a run of fields that all decode: \<open>Some\<close> the offset behind the
  last one, \<open>None\<close> when one of them throws.
\<close>

fun cursorAfter :: "buffer \<Rightarrow> nat \<Rightarrow> ReturnField list \<Rightarrow> nat option" where
  "cursorAfter buffer offset [] = Some offset"
| "cursorAfter buffer offset (field # layout) =
     (case decodeField buffer offset (fieldType field) of
        Inl message \<Rightarrow> None
      | Inr (v, offset') \<Rightarrow> cursorAfter buffer offset' layout)"

text \<open>A decoded field whose value is the message of a decode error.\<close>

definition isDecodeError :: "DecodedReturnField \<Rightarrow> bool" where
  "isDecodeError d =
     (case decodedValue d of
        Text t \<Rightarrow> startsWith t ''Decode error: ''
      | Utf8Text bs \<Rightarrow> False)"

section \<open>Type resolver\<close>

text \<open>
  The type of an argument in the interface description is a string or an object with
  one of the keys \<open>defined\<close>, \<open>vec\<close>, \<open>option\<close>, \<open>coption\<close>, \<open>array\<close>;
  \<open>IdlOther\<close> is any other value (an object with none of the keys, or \<open>null\<close>).
\<close>

datatype idl_type =
    IdlString string
  | IdlDefined string
  | IdlVec idl_type
  | IdlOption idl_type
  | IdlCOption idl_type
  | IdlArray idl_type nat
  | IdlOther

fun resolveArgType :: "idl_type \<Rightarrow> string" where
  "resolveArgType (IdlString t) = t"
| "resolveArgType (IdlDefined d) = (if d = [] then ''string'' else d)"
| "resolveArgType (IdlVec t) = ''vec''"
| "resolveArgType (IdlOption t) = resolveArgType t"
| "resolveArgType (IdlCOption t) = resolveArgType t"
| "resolveArgType (IdlArray t n) = ''array''"
| "resolveArgType IdlOther = ''string''"

section \<open>Discriminator\<close>

text \<open>
  \<open>toSnakeCase\<close>: the first \<open>replace\<close> visits every \<open>[A-Z]\<close> with its index in the
  string, the second removes one leading underscore.
\<close>

fun snakeReplace :: "nat \<Rightarrow> string \<Rightarrow> string" where
  "snakeReplace offset [] = []"
| "snakeReplace offset (c # cs) =
     (if c \<in> set upper_chars
      then (if offset > 0 then ''_'' else []) @ [lower_char c] @ snakeReplace (offset + 1) cs
      else c # snakeReplace (offset + 1) cs)"

definition toSnakeCase :: "string \<Rightarrow> string" where
  "toSnakeCase str =
     (let replaced = snakeReplace 0 str
      in if replaced \<noteq> [] \<and> hd replaced = CHR ''_'' then tl replaced else replaced)"

text \<open>The UTF-8 bytes of a text of code units below U+0100.\<close>

definition utf8_char :: "char \<Rightarrow> buffer" where
  "utf8_char c =
     (let b = (of_char c :: byte)
      in if b < 0x80 then [b] else [0xC0 OR drop_bit 6 b, 0x80 OR (b AND 0x3F)])"

definition utf8 :: "string \<Rightarrow> buffer" where
  "utf8 s = concat (map utf8_char s)"

text \<open>
  SHA-256 (FIPS 180-4), the hash that \<open>sha256\<close> of the \<open>js-sha256\<close> package
  computes; \<open>sha_k\<close> and \<open>sha_h0\<close> are the round constants and the initial hash value.
\<close>

type_synonym word32 = "32 word"

definition rotr :: "nat \<Rightarrow> word32 \<Rightarrow> word32" where
  "rotr n x = drop_bit n x OR push_bit (32 - n) x"

definition sha_ch :: "word32 \<Rightarrow> word32 \<Rightarrow> word32 \<Rightarrow> word32" where
  "sha_ch x y z = (x AND y) XOR (NOT x AND z)"

definition sha_maj :: "word32 \<Rightarrow> word32 \<Rightarrow> word32 \<Rightarrow> word32" where
  "sha_maj x y z = (x AND y) XOR (x AND z) XOR (y AND z)"

definition big_sigma0 :: "word32 \<Rightarrow> word32" where
  "big_sigma0 x = rotr 2 x XOR rotr 13 x XOR rotr 22 x"

definition big_sigma1 :: "word32 \<Rightarrow> word32" where
  "big_sigma1 x = rotr 6 x XOR rotr 11 x XOR rotr 25 x"

definition small_sigma0 :: "word32 \<Rightarrow> word32" where
  "small_sigma0 x = rotr 7 x XOR rotr 18 x XOR drop_bit 3 x"

definition small_sigma1 :: "word32 \<Rightarrow> word32" where
  "small_sigma1 x = rotr 17 x XOR rotr 19 x XOR drop_bit 10 x"

definition sha_k :: "word32 list" where
  "sha_k =
     [1116352408, 1899447441, 3049323471, 3921009573, 961987163, 1508970993,
      2453635748, 2870763221, 3624381080, 310598401, 607225278, 1426881987, 1925078388,
      2162078206, 2614888103, 3248222580, 3835390401, 4022224774, 264347078, 604807628,
      770255983, 1249150122, 1555081692, 1996064986, 2554220882, 2821834349,
      2952996808, 3210313671, 3336571891, 3584528711, 113926993, 338241895, 666307205,
      773529912, 1294757372, 1396182291, 1695183700, 1986661051, 2177026350,
      2456956037, 2730485921, 2820302411, 3259730800, 3345764771, 3516065817,
      3600352804, 4094571909, 275423344, 430227734, 506948616, 659060556, 883997877,
      958139571, 1322822218, 1537002063, 1747873779, 1955562222, 2024104815,
      2227730452, 2361852424, 2428436474, 2756734187, 3204031479, 3329325298]"

definition sha_h0 :: "word32 list" where
  "sha_h0 =
     [1779033703, 3144134277, 1013904242, 2773480762, 1359893119, 2600822924,
      528734635, 1541459225]"

fun be32 :: "buffer \<Rightarrow> word32" where
  "be32 [a, b, c, d] =
     push_bit 24 (ucast a) OR push_bit 16 (ucast b) OR push_bit 8 (ucast c) OR ucast d"
| "be32 bs = 0"

fun chunks :: "nat \<Rightarrow> 'a list \<Rightarrow> 'a list list" where
  "chunks 0 xs = []"
| "chunks (Suc n) xs =
     (if xs = [] then [] else take (Suc n) xs # chunks (Suc n) (drop (Suc n) xs))"

text \<open>The message schedule, newest word first.\<close>

fun schedule :: "nat \<Rightarrow> word32 list \<Rightarrow> word32 list" where
  "schedule 0 ws = ws"
| "schedule (Suc n) ws =
     schedule n ((small_sigma1 (ws ! 1) + ws ! 6 + small_sigma0 (ws ! 14) + ws ! 15) # ws)"

fun sha_round :: "word32 list \<Rightarrow> word32 \<times> word32 \<Rightarrow> word32 list" where
  "sha_round [a, b, c, d, e, f, g, h] (k, w) =
     (let t1 = h + big_sigma1 e + sha_ch e f g + k + w;
          t2 = big_sigma0 a + sha_maj a b c
      in [t1 + t2, a, b, c, d + t1, e, f, g])"
| "sha_round s kw = s"

definition compress :: "word32 list \<Rightarrow> buffer \<Rightarrow> word32 list" where
  "compress h block =
     (let w = rev (schedule 48 (rev (map be32 (chunks 4 block))))
      in map2 (+) h (foldl sha_round h (zip sha_k w)))"

definition sha_pad :: "buffer \<Rightarrow> buffer" where
  "sha_pad m =
     (let l = int (length m)
      in m @ [0x80] @ replicate (nat ((119 - l) mod 64)) 0
           @ map (\<lambda>i. word_of_int (drop_bit (8 * i) (8 * l))) [7, 6, 5, 4, 3, 2, 1, 0])"

definition word32_bytes :: "word32 \<Rightarrow> buffer" where
  "word32_bytes w = map (\<lambda>i. ucast (drop_bit (8 * i) w)) [3, 2, 1, 0]"

definition sha256 :: "buffer \<Rightarrow> buffer" where
  "sha256 m = concat (map word32_bytes (foldl compress sha_h0 (chunks 64 (sha_pad m))))"

definition getInstructionDiscriminator :: "string \<Rightarrow> buffer" where
  "getInstructionDiscriminator instructionName =
     (let snakeCaseName = toSnakeCase instructionName;
          hash = sha256 (utf8 (''global:'' @ snakeCaseName))
      in take 8 hash)"

section \<open>Argument encoder\<close>

text \<open>
  Each constructor is one \<open>throw\<close> of the encoder, with the parts its message
  interpolates:
  \<^item> \<open>InvalidInteger a raw\<close>: \<^verbatim>\<open>[a] Invalid integer value: raw\<close>
  \<^item> \<open>OutOfRange a v t\<close>: \<^verbatim>\<open>[a] Value v is out of range for t\<close>
  \<^item> \<open>NegativeUnsigned a t\<close>: \<^verbatim>\<open>[a] t must be greater than or equal to 0\<close>
  \<^item> \<open>UnsupportedBigint t\<close>: \<^verbatim>\<open>Unsupported bigint type t\<close>
  \<^item> \<open>NotFinite a\<close>: \<^verbatim>\<open>[a] Value must be a finite number\<close>
  \<^item> \<open>NotInteger a\<close>: \<^verbatim>\<open>[a] Value must be an integer\<close>
  \<^item> \<open>InvalidBool a\<close>: \<^verbatim>\<open>[a] Invalid bool value. Use true/false or 1/0.\<close>
  \<^item> \<open>InvalidPublicKey a\<close>: \<^verbatim>\<open>Invalid PublicKey for a\<close>
  \<^item> \<open>IndexOutOfRange\<close>, \<open>ValueOutOfBounds\<close>, \<open>InvalidBufferSize\<close>: the \<open>RangeError\<close>s
    of the \<open>buffer\<close> package (a write that does not fit, a value outside the
    written type, a buffer of \<open>2^31\<close> bytes or more).
\<close>

datatype error =
    InvalidInteger string string
  | OutOfRange string int string
  | NegativeUnsigned string string
  | UnsupportedBigint string
  | NotFinite string
  | NotInteger string
  | InvalidBool string
  | InvalidPublicKey string
  | IndexOutOfRange
  | ValueOutOfBounds
  | InvalidBufferSize

text \<open>
  The message of each error. The value of \<open>OutOfRange\<close> is printed in decimal, as a
  bigint is and as a number below \<open>10^21\<close> is.
\<close>

fun errorMessage :: "error \<Rightarrow> string" where
  "errorMessage (InvalidInteger a raw) = ''['' @ a @ ''] Invalid integer value: '' @ raw"
| "errorMessage (OutOfRange a v t) =
     ''['' @ a @ ''] Value '' @ show_int v @ '' is out of range for '' @ t"
| "errorMessage (NegativeUnsigned a t) =
     ''['' @ a @ ''] '' @ t @ '' must be greater than or equal to 0''"
| "errorMessage (UnsupportedBigint t) = ''Unsupported bigint type '' @ t"
| "errorMessage (NotFinite a) = ''['' @ a @ ''] Value must be a finite number''"
| "errorMessage (NotInteger a) = ''['' @ a @ ''] Value must be an integer''"
| "errorMessage (InvalidBool a) = ''['' @ a @ ''] Invalid bool value. Use true/false or 1/0.''"
| "errorMessage (InvalidPublicKey a) = ''Invalid PublicKey for '' @ a"
| "errorMessage IndexOutOfRange = ''Index out of range''"
| "errorMessage ValueOutOfBounds = ''\"value\" argument is out of bounds''"
| "errorMessage InvalidBufferSize = ''Invalid typed array length''"

definition andThen :: "'e + 'a \<Rightarrow> ('a \<Rightarrow> 'e + 'b) \<Rightarrow> 'e + 'b" where
  "andThen r f = (case r of Inl e \<Rightarrow> Inl e | Inr x \<Rightarrow> f x)"

subsection \<open>Integer literals\<close>

text \<open>
  The integer literals that \<open>BigInt(text)\<close> and \<open>Number(text)\<close> both read: decimal
  digits with an optional sign, or unsigned digits after \<open>0x\<close>, \<open>0o\<close>, \<open>0b\<close>.
\<close>

definition digit_of :: "char \<Rightarrow> int option" where
  "digit_of c =
     map_of (zip ''0123456789abcdefABCDEF''
                 [0, 1, 2, 3, 4, 5, 6, 7, 8, 9, 10, 11, 12, 13, 14, 15, 10, 11, 12, 13, 14, 15]) c"

definition digits_step :: "int \<Rightarrow> int option \<Rightarrow> char \<Rightarrow> int option" where
  "digits_step base acc c =
     (case acc of
        None \<Rightarrow> None
      | Some a \<Rightarrow>
          (case digit_of c of
             None \<Rightarrow> None
           | Some d \<Rightarrow> if d < base then Some (base * a + d) else None))"

definition digits_value :: "int \<Rightarrow> string \<Rightarrow> int option" where
  "digits_value base ds = (if ds = [] then None else foldl (digits_step base) (Some 0) ds)"

definition int_literal :: "string \<Rightarrow> int option" where
  "int_literal t =
     (if startsWith t ''0x'' \<or> startsWith t ''0X'' then digits_value 16 (drop 2 t)
      else if startsWith t ''0o'' \<or> startsWith t ''0O'' then digits_value 8 (drop 2 t)
      else if startsWith t ''0b'' \<or> startsWith t ''0B'' then digits_value 2 (drop 2 t)
      else if startsWith t ''-'' then map_option uminus (digits_value 10 (drop 1 t))
      else if startsWith t ''+'' then digits_value 10 (drop 1 t)
      else digits_value 10 t)"

text \<open>\<open>BigInt(text)\<close>: \<open>None\<close> is the \<open>SyntaxError\<close>.\<close>

definition js_BigInt :: "string \<Rightarrow> int option" where
  "js_BigInt s = (let t = js_trim s in if t = [] then Some 0 else int_literal t)"

text \<open>
  \<open>Number(text)\<close> as far as \<open>parseIntegerInput\<close> looks at it: a finite integer, a
  finite number with a fraction, or \<open>NaN\<close> and the infinities. An integer literal up to
  \<open>2^53\<close> in size is that integer. Every other text (a larger literal, a fraction, an
  exponent, no number at all) is rounded by the floating-point conversion, which is the
  parameter \<open>toNumber\<close>.
\<close>

datatype js_number = Finite_Int int | Finite_Fraction | Not_Finite

definition js_Number :: "(string \<Rightarrow> js_number) \<Rightarrow> string \<Rightarrow> js_number" where
  "js_Number toNumber s =
     (let t = js_trim s
      in if t = [] then Finite_Int 0
         else (case int_literal t of
                 Some n \<Rightarrow> if \<bar>n\<bar> \<le> 9007199254740992 then Finite_Int n else toNumber t
               | None \<Rightarrow> toNumber t))"

subsection \<open>Parsing and range checks\<close>

text \<open>\<open>NUMERIC_TYPE_INFO\<close>: bits, signed, \<open>useBigInt\<close> of the ten integer kinds.\<close>

definition NUMERIC_TYPE_INFO :: "string \<Rightarrow> (nat \<times> bool \<times> bool) option" where
  "NUMERIC_TYPE_INFO =
     map_of
       [(''u8'', (8, False, False)), (''u16'', (16, False, False)), (''u32'', (32, False, False)),
        (''u64'', (64, False, True)), (''u128'', (128, False, True)),
        (''i8'', (8, True, False)), (''i16'', (16, True, False)), (''i32'', (32, True, False)),
        (''i64'', (64, True, True)), (''i128'', (128, True, True))]"

definition parseBigIntInput :: "string option \<Rightarrow> string \<Rightarrow> error + int" where
  "parseBigIntInput raw argName =
     (let normalized = js_trim (case raw of None \<Rightarrow> ''0'' | Some r \<Rightarrow> r)
      in if normalized = [] then Inr 0
         else (case js_BigInt normalized of
                 Some v \<Rightarrow> Inr v
               | None \<Rightarrow> Inl (InvalidInteger argName (case raw of None \<Rightarrow> [] | Some r \<Rightarrow> r))))"

definition ensureBigIntRange :: "int \<Rightarrow> nat \<Rightarrow> bool \<Rightarrow> string \<Rightarrow> string \<Rightarrow> error + unit" where
  "ensureBigIntRange v bits isSigned argName typeLabel =
     (if isSigned then
        (let min = - push_bit (bits - 1) 1;
             max = push_bit (bits - 1) 1 - 1
         in if v < min \<or> v > max then Inl (OutOfRange argName v typeLabel) else Inr ())
      else if v < 0 then Inl (NegativeUnsigned argName typeLabel)
      else (let max = push_bit bits 1 - 1
            in if v > max then Inl (OutOfRange argName v typeLabel) else Inr ()))"

definition parseIntegerInput ::
  "(string \<Rightarrow> js_number) \<Rightarrow> string option \<Rightarrow> string \<Rightarrow> error + int"
where
  "parseIntegerInput toNumber raw argName =
     (case raw of
        None \<Rightarrow> Inr 0
      | Some r \<Rightarrow>
          if r = [] then Inr 0
          else (case js_Number toNumber r of
                  Not_Finite \<Rightarrow> Inl (NotFinite argName)
                | Finite_Fraction \<Rightarrow> Inl (NotInteger argName)
                | Finite_Int num \<Rightarrow> Inr num))"

definition ensureNumberRange :: "int \<Rightarrow> nat \<Rightarrow> bool \<Rightarrow> string \<Rightarrow> string \<Rightarrow> error + unit" where
  "ensureNumberRange v bits isSigned argName typeLabel =
     (let min = (if isSigned then - (2 ^ (bits - 1)) else 0);
          max = (if isSigned then 2 ^ (bits - 1) - 1 else 2 ^ bits - 1)
      in if v < min \<or> v > max then Inl (OutOfRange argName v typeLabel) else Inr ())"

subsection \<open>Writing into the buffer\<close>

text \<open>
  The write methods of the \<open>buffer\<close> package convert the offset to 32 bits unsigned
  (\<open>offset >>> 0\<close>), refuse a value outside the written type and a write that does not
  fit (\<open>checkInt\<close>), and then store the bytes, low byte first; a negative value is stored
  in two's complement.
\<close>

definition toUint32 :: "nat \<Rightarrow> nat" where
  "toUint32 n = nat (int n mod 4294967296)"

definition toInt32 :: "nat \<Rightarrow> int" where
  "toInt32 n =
     (let m = int n mod 4294967296 in if m \<ge> 2147483648 then m - 4294967296 else m)"

definition checkInt :: "buffer \<Rightarrow> int \<Rightarrow> nat \<Rightarrow> nat \<Rightarrow> int \<Rightarrow> int \<Rightarrow> error + unit" where
  "checkInt buf v offset ext maxv minv =
     (if v > maxv \<or> v < minv then Inl ValueOutOfBounds
      else if offset + ext > length buf then Inl IndexOutOfRange
      else Inr ())"

definition storeLE :: "buffer \<Rightarrow> int \<Rightarrow> nat \<Rightarrow> nat \<Rightarrow> buffer" where
  "storeLE buf v offset ext =
     fold (\<lambda>i b. b[offset + i := word_of_int (drop_bit (8 * i) v)]) [0..<ext] buf"

definition writeIntLE :: "buffer \<Rightarrow> int \<Rightarrow> nat \<Rightarrow> nat \<Rightarrow> int \<Rightarrow> int \<Rightarrow> error + buffer" where
  "writeIntLE buf v offset ext maxv minv =
     (let offset = toUint32 offset
      in andThen (checkInt buf v offset ext maxv minv) (\<lambda>_. Inr (storeLE buf v offset ext)))"

definition writeUInt8 :: "buffer \<Rightarrow> int \<Rightarrow> nat \<Rightarrow> error + buffer" where
  "writeUInt8 buf v offset = writeIntLE buf v offset 1 0xff 0"

definition writeInt8 :: "buffer \<Rightarrow> int \<Rightarrow> nat \<Rightarrow> error + buffer" where
  "writeInt8 buf v offset = writeIntLE buf v offset 1 0x7f (- 0x80)"

definition writeUInt16LE :: "buffer \<Rightarrow> int \<Rightarrow> nat \<Rightarrow> error + buffer" where
  "writeUInt16LE buf v offset = writeIntLE buf v offset 2 0xffff 0"

definition writeInt16LE :: "buffer \<Rightarrow> int \<Rightarrow> nat \<Rightarrow> error + buffer" where
  "writeInt16LE buf v offset = writeIntLE buf v offset 2 0x7fff (- 0x8000)"

definition writeUInt32LE :: "buffer \<Rightarrow> int \<Rightarrow> nat \<Rightarrow> error + buffer" where
  "writeUInt32LE buf v offset = writeIntLE buf v offset 4 0xffffffff 0"

definition writeInt32LE :: "buffer \<Rightarrow> int \<Rightarrow> nat \<Rightarrow> error + buffer" where
  "writeInt32LE buf v offset = writeIntLE buf v offset 4 0x7fffffff (- 0x80000000)"

text \<open>
  \<open>source.copy(target, targetStart)\<close> copies as many bytes as fit and drops the rest;
  the result is the target after the copy.
\<close>

definition copy :: "buffer \<Rightarrow> buffer \<Rightarrow> nat \<Rightarrow> buffer" where
  "copy source target targetStart =
     (let n = min (length source) (length target - targetStart)
      in take targetStart target @ take n source @ drop (targetStart + n) target)"

text \<open>\<open>buf.slice(0, end)\<close>: the end is converted to 32 bits signed and clamped.\<close>

definition slice0 :: "buffer \<Rightarrow> nat \<Rightarrow> buffer" where
  "slice0 buf e =
     (let len = int (length buf);
          e32 = toInt32 e;
          stop = (if e32 < 0 then (if e32 + len < 0 then 0 else e32 + len)
                  else if e32 > len then len else e32)
      in take (nat stop) buf)"

text \<open>\<open>Buffer.from(text, 'utf8')\<close>.\<close>

definition bufferFrom :: "string \<Rightarrow> error + buffer" where
  "bufferFrom s =
     (let bytes = utf8 s
      in if int (length bytes) > 2147483647 then Inl InvalidBufferSize else Inr bytes)"

text \<open>
  \<open>new PublicKey(text).toBuffer()\<close>: the text is base 58 and decodes to exactly 32
  bytes; \<open>None\<close> is the error the constructor throws, also for a missing value.
\<close>

function be_bytes :: "int \<Rightarrow> buffer" where
  "be_bytes n = (if n \<le> 0 then [] else be_bytes (n div 256) @ [word_of_int n])"
  by pat_completeness auto
termination
  by (relation "measure nat") auto

declare be_bytes.simps [simp del]

definition base58_value :: "char \<Rightarrow> int option" where
  "base58_value c =
     map_of (zip base58_alphabet (map int [0..<58])) c"

definition base58_step :: "int option \<Rightarrow> char \<Rightarrow> int option" where
  "base58_step acc c =
     (case acc of
        None \<Rightarrow> None
      | Some a \<Rightarrow> (case base58_value c of None \<Rightarrow> None | Some d \<Rightarrow> Some (58 * a + d)))"

definition fromBase58 :: "string \<Rightarrow> buffer option" where
  "fromBase58 s =
     (case foldl base58_step (Some 0) s of
        None \<Rightarrow> None
      | Some n \<Rightarrow>
          Some (replicate (length (takeWhile (\<lambda>c. c = CHR ''1'') s)) 0 @ be_bytes n))"

definition publicKeyBytes :: "string option \<Rightarrow> buffer option" where
  "publicKeyBytes v =
     (case v of
        None \<Rightarrow> None
      | Some s \<Rightarrow>
          (case fromBase58 s of
             None \<Rightarrow> None
           | Some bytes \<Rightarrow> if length bytes = 32 then Some bytes else None))"

subsection \<open>64-bit and 128-bit integers\<close>

definition BIGINT_BYTE_LENGTH :: "string \<Rightarrow> nat option" where
  "BIGINT_BYTE_LENGTH = map_of [(''u64'', 8), (''i64'', 8), (''u128'', 16), (''i128'', 16)]"

text \<open>
  The loop of \<open>writeBigIntToBuffer\<close> assigns \<open>buffer[offset + i]\<close>; an index past the
  end of the buffer is ignored, as \<open>list_update\<close> ignores it.
\<close>

definition bigIntStep :: "nat \<Rightarrow> nat \<Rightarrow> buffer \<times> int \<Rightarrow> buffer \<times> int" where
  "bigIntStep offset i st =
     (case st of (buf, normalized) \<Rightarrow>
        (buf[offset + i := word_of_int (normalized AND 0xff)], drop_bit 8 normalized))"

definition writeBigIntToBuffer ::
  "buffer \<Rightarrow> string option \<Rightarrow> nat \<Rightarrow> string \<Rightarrow> string \<Rightarrow> error + (buffer \<times> nat)"
where
  "writeBigIntToBuffer buf rawValue offset typeName argName =
     (case BIGINT_BYTE_LENGTH typeName of
        None \<Rightarrow> Inl (UnsupportedBigint typeName)
      | Some byteLength \<Rightarrow>
          (let isSigned = startsWith typeName ''i'';
               bits = byteLength * 8
           in andThen (parseBigIntInput rawValue argName) (\<lambda>v.
              andThen (ensureBigIntRange v bits isSigned argName typeName) (\<lambda>_.
                (let normalized = (if isSigned \<and> v < 0 then push_bit bits 1 + v else v)
                 in Inr (fst (fold (bigIntStep offset) [0..<byteLength] (buf, normalized)),
                         byteLength))))))"

subsection \<open>The encoding loop of \<open>handleSend\<close>\<close>

record IdlArg =
  argName :: string
  argType :: idl_type

text \<open>The string branch, which is also the fallback for every other type.\<close>

definition encodeString :: "buffer \<Rightarrow> nat \<Rightarrow> string option \<Rightarrow> error + (buffer \<times> nat)" where
  "encodeString argsBuffer offset v =
     andThen (bufferFrom (case v of None \<Rightarrow> [] | Some s \<Rightarrow> s)) (\<lambda>strBytes.
     andThen (writeUInt32LE argsBuffer (int (length strBytes)) offset) (\<lambda>argsBuffer.
       Inr (copy strBytes argsBuffer (offset + 4), offset + 4 + length strBytes)))"

definition encodeNumber ::
  "(string \<Rightarrow> js_number) \<Rightarrow> buffer \<Rightarrow> nat \<Rightarrow> string option \<Rightarrow> string \<Rightarrow> string \<Rightarrow> string
     \<Rightarrow> nat \<Rightarrow> (buffer \<Rightarrow> int \<Rightarrow> nat \<Rightarrow> error + buffer)
     \<Rightarrow> (buffer \<Rightarrow> int \<Rightarrow> nat \<Rightarrow> error + buffer) \<Rightarrow> error + (buffer \<times> nat)"
where
  "encodeNumber toNumber argsBuffer offset v name typeName resolvedType bits writeU writeI =
     andThen (parseIntegerInput toNumber v name) (\<lambda>val.
     andThen (ensureNumberRange val bits (startsWith typeName ''i'') name resolvedType) (\<lambda>_.
     andThen (if startsWith typeName ''u'' then writeU argsBuffer val offset
              else writeI argsBuffer val offset) (\<lambda>argsBuffer.
       Inr (argsBuffer, offset + bits div 8))))"

text \<open>The body of the loop over \<open>instruction.args\<close>, for one argument and its value.\<close>

definition encodeArg ::
  "(string \<Rightarrow> js_number) \<Rightarrow> buffer \<Rightarrow> nat \<Rightarrow> IdlArg \<Rightarrow> string option
     \<Rightarrow> error + (buffer \<times> nat)"
where
  "encodeArg toNumber argsBuffer offset arg v =
     (let resolvedType = resolveArgType (argType arg);
          typeName = js_toLowerCase resolvedType
      in if typeName = ''u64'' \<or> typeName = ''u128'' \<or> typeName = ''i64''
            \<or> typeName = ''i128'' then
           andThen (writeBigIntToBuffer argsBuffer v offset typeName (argName arg))
             (\<lambda>(argsBuffer, written). Inr (argsBuffer, offset + written))
         else if typeName = ''u32'' \<or> typeName = ''i32'' then
           encodeNumber toNumber argsBuffer offset v (argName arg) typeName resolvedType 32
             writeUInt32LE writeInt32LE
         else if typeName = ''u16'' \<or> typeName = ''i16'' then
           encodeNumber toNumber argsBuffer offset v (argName arg) typeName resolvedType 16
             writeUInt16LE writeInt16LE
         else if typeName = ''u8'' \<or> typeName = ''i8'' then
           encodeNumber toNumber argsBuffer offset v (argName arg) typeName resolvedType 8
             writeUInt8 writeInt8
         else if typeName = ''string'' then encodeString argsBuffer offset v
         else if typeName = ''bool'' then
           (let normalized = js_toLowerCase (js_trim (case v of None \<Rightarrow> [] | Some s \<Rightarrow> s))
            in if normalized = [] \<or> normalized = ''false'' \<or> normalized = ''0'' then
                 andThen (writeUInt8 argsBuffer 0 offset) (\<lambda>argsBuffer.
                   Inr (argsBuffer, offset + 1))
               else if normalized = ''true'' \<or> normalized = ''1'' then
                 andThen (writeUInt8 argsBuffer 1 offset) (\<lambda>argsBuffer.
                   Inr (argsBuffer, offset + 1))
               else Inl (InvalidBool (argName arg)))
         else if typeName = ''publickey'' \<or> typeName = ''pubkey'' then
           (case publicKeyBytes v of
              None \<Rightarrow> Inl (InvalidPublicKey (argName arg))
            | Some pubkeyBytes \<Rightarrow> Inr (copy pubkeyBytes argsBuffer offset, offset + 32))
         else encodeString argsBuffer offset v)"

fun encodeLoop ::
  "(string \<Rightarrow> js_number) \<Rightarrow> (string \<Rightarrow> string option) \<Rightarrow> IdlArg list \<Rightarrow> buffer \<times> nat
     \<Rightarrow> error + (buffer \<times> nat)"
where
  "encodeLoop toNumber argValues [] st = Inr st"
| "encodeLoop toNumber argValues (arg # args) st =
     andThen (encodeArg toNumber (fst st) (snd st) arg (argValues (argName arg)))
       (encodeLoop toNumber argValues args)"

text \<open>
  The \<open>try\<close> block of \<open>handleSend\<close> up to \<open>finalBuffer\<close>: a zeroed buffer of 1024 bytes,
  the discriminator at offset 0, the arguments from offset 8, and the slice up to the
  final offset.
\<close>

definition encodeArgs ::
  "(string \<Rightarrow> js_number) \<Rightarrow> buffer \<Rightarrow> IdlArg list \<Rightarrow> (string \<Rightarrow> string option)
     \<Rightarrow> error + buffer"
where
  "encodeArgs toNumber discriminator args argValues =
     (let argsBuffer = replicate 1024 0;
          argsBuffer = copy discriminator argsBuffer 0
      in andThen (encodeLoop toNumber argValues args (argsBuffer, 8))
           (\<lambda>(argsBuffer, offset). Inr (slice0 argsBuffer offset)))"

definition instructionData ::
  "(string \<Rightarrow> js_number) \<Rightarrow> string \<Rightarrow> IdlArg list \<Rightarrow> (string \<Rightarrow> string option)
     \<Rightarrow> error + buffer"
where
  "instructionData toNumber instructionName args argValues =
     encodeArgs toNumber (getInstructionDiscriminator instructionName) args argValues"

subsection \<open>The encoding the specification names\<close>

text \<open>
  The little-endian bytes of \<open>v\<close> at a width of \<open>n\<close> bytes, in two's complement: byte
  \<open>i\<close> is digit \<open>i\<close> in base 256 of \<open>v\<close> taken modulo \<open>2^(8n)\<close>.
\<close>

definition littleEndian :: "int \<Rightarrow> nat \<Rightarrow> buffer" where
  "littleEndian v n = map (\<lambda>i. word_of_int (v mod 2 ^ (8 * n) div 2 ^ (8 * i))) [0..<n]"

section \<open>Properties of the return decoder\<close>

lemma ensureBytes_ok:
  "offset + required \<le> length buffer \<Longrightarrow> ensureBytes buffer offset required = Inr ()"
  by (simp add: ensureBytes_def)

lemma ensureBytes_short:
  "length buffer < offset + required \<Longrightarrow>
   ensureBytes buffer offset required =
     Inl (''Need '' @ show_int (int required) @ '' more bytes, only ''
          @ show_int (int (length buffer) - int offset) @ '' left'')"
  by (simp add: ensureBytes_def)

lemma ensureBytes_Inr_iff:
  "ensureBytes buffer offset required = Inr u \<longleftrightarrow> offset + required \<le> length buffer"
  by (auto simp: ensureBytes_def Let_def)

lemma readLoop_agree:
  "\<forall>i \<in> set is. offset + i < length b1 \<and> offset + i < length b2
      \<and> b2 ! (offset + i) = b1 ! (offset + i) \<Longrightarrow>
   readLoop b2 offset is r = readLoop b1 offset is r"
  by (induction "is" arbitrary: r) auto

lemma readLoop_Inr:
  "\<forall>i \<in> set is. offset + i < length b \<Longrightarrow> \<exists>x. readLoop b offset is r = Inr x"
  by (induction "is" arbitrary: r) auto

lemma readBigInt_Inr:
  assumes "offset + n \<le> length b"
  shows "\<exists>x. readBigIntFromBuffer b offset n s = Inr x"
proof -
  have "\<forall>i \<in> set [0..<n]. offset + i < length b" using assms by auto
  from readLoop_Inr [OF this] obtain x where "readLoop b offset [0..<n] 0 = Inr x" by blast
  then show ?thesis by (simp add: readBigIntFromBuffer_def Let_def)
qed

lemma nth_agree: "take k b2 = take k b1 \<Longrightarrow> i < k \<Longrightarrow> b2 ! i = b1 ! i"
  by (metis nth_take)

lemma readBigInt_agree:
  assumes "offset + n \<le> length b1" "offset + n \<le> length b2"
    and "take (offset + n) b2 = take (offset + n) b1"
  shows "readBigIntFromBuffer b2 offset n s = readBigIntFromBuffer b1 offset n s"
proof -
  have "\<forall>i \<in> set [0..<n]. offset + i < length b1 \<and> offset + i < length b2
          \<and> b2 ! (offset + i) = b1 ! (offset + i)"
  proof
    fix i assume "i \<in> set [0..<n]"
    then have i: "offset + i < offset + n" by simp
    have "b2 ! (offset + i) = b1 ! (offset + i)"
      using assms(3) i by (rule nth_agree)
    then show "offset + i < length b1 \<and> offset + i < length b2
        \<and> b2 ! (offset + i) = b1 ! (offset + i)"
      using i assms(1,2) by simp
  qed
  then have "readLoop b2 offset [0..<n] 0 = readLoop b1 offset [0..<n] 0"
    by (rule readLoop_agree)
  then show ?thesis
    by (simp only: readBigIntFromBuffer_def)
qed

lemma take_drop_agree:
  assumes "take (offset + n) b2 = take (offset + n) b1"
  shows "take n (drop offset b2) = take n (drop offset b1)"
proof -
  have "take n (drop offset b2) = drop offset (take (offset + n) b2)"
    by (simp add: drop_take)
  also have "\<dots> = drop offset (take (offset + n) b1)" using assms by simp
  also have "\<dots> = take n (drop offset b1)" by (simp add: drop_take)
  finally show ?thesis .
qed

lemma take_agree_le: "take k b2 = take k b1 \<Longrightarrow> j \<le> k \<Longrightarrow> take j b2 = take j b1"
  by (metis min.absorb1 take_take)

lemma readUInt32LE_agree:
  assumes "take (offset + 4) b2 = take (offset + 4) b1"
  shows "readUInt32LE b2 offset = readUInt32LE b1 offset"
proof -
  have "b2 ! offset = b1 ! offset" "b2 ! (offset + 1) = b1 ! (offset + 1)"
    "b2 ! (offset + 2) = b1 ! (offset + 2)" "b2 ! (offset + 3) = b1 ! (offset + 3)"
    using assms by (auto intro: nth_agree)
  then show ?thesis
    by (simp only: readUInt32LE_def)
qed

text \<open>The branches of decodeField as equations.\<close>

lemma decodeField_numeric:
  "numericTypes ty = Some (n, s) \<Longrightarrow>
   decodeField buffer offset ty =
     (if offset + n \<le> length buffer
      then (case readBigIntFromBuffer buffer offset n s of
              Inl e \<Rightarrow> Inl e | Inr v \<Rightarrow> Inr (Text (show_int v), offset + n))
      else Inl (''Need '' @ show_int (int n) @ '' more bytes, only ''
                @ show_int (int (length buffer) - int offset) @ '' left''))"
  by (simp add: decodeField_def ensureBytes_ok ensureBytes_short)

lemma decodeField_bool:
  "decodeField buffer offset ''bool'' =
     (if offset + 1 \<le> length buffer
      then Inr (Text (if buffer ! offset = 1 then ''true'' else ''false''), offset + 1)
      else Inl (''Need '' @ show_int 1 @ '' more bytes, only ''
                @ show_int (int (length buffer) - int offset) @ '' left''))"
  by (simp add: decodeField_def numericTypes_def ensureBytes_def)

lemma decodeField_pubkey:
  "decodeField buffer offset ''pubkey'' =
     (if offset + 32 \<le> length buffer
      then Inr (Text (toBase58 (take 32 (drop offset buffer))), offset + 32)
      else Inl (''Need '' @ show_int 32 @ '' more bytes, only ''
                @ show_int (int (length buffer) - int offset) @ '' left''))"
  by (simp add: decodeField_def numericTypes_def ensureBytes_def)

lemma decodeField_text:
  "ty = ''string'' \<or> ty = ''bytes'' \<Longrightarrow>
   decodeField buffer offset ty =
     (if offset + 4 \<le> length buffer
      then (let len = readUInt32LE buffer offset
            in if offset + 4 + len \<le> length buffer
               then Inr (if ty = ''string'' then Utf8Text (take len (drop (offset + 4) buffer))
                         else Text (toHex (take len (drop (offset + 4) buffer))),
                         offset + 4 + len)
               else Inl (''Need '' @ show_int (int len) @ '' more bytes, only ''
                         @ show_int (int (length buffer) - int (offset + 4)) @ '' left''))
      else Inl (''Need '' @ show_int 4 @ '' more bytes, only ''
                @ show_int (int (length buffer) - int offset) @ '' left''))"
proof (elim disjE)
  assume "ty = ''string''"
  then show ?thesis
    by (simp add: decodeField_def numericTypes_def ensureBytes_def Let_def)
next
  assume "ty = ''bytes''"
  then show ?thesis
    by (simp add: decodeField_def numericTypes_def ensureBytes_def Let_def)
qed

lemma decodeField_unsupported:
  "numericTypes ty = None \<Longrightarrow> ty \<notin> {''bool'', ''pubkey'', ''string'', ''bytes''} \<Longrightarrow>
   decodeField buffer offset ty = Inl (''Unsupported field type '' @ [CHR 0x27] @ ty @ [CHR 0x27])"
  by (simp add: decodeField_def)


lemma field_kind_cases:
  obtains (numeric) n s where "numericTypes ty = Some (n, s)"
  | (bool) "ty = ''bool''"
  | (pubkey) "ty = ''pubkey''"
  | (textual) "ty = ''string'' \<or> ty = ''bytes''"
  | (unsupported) "numericTypes ty = None" "ty \<notin> {''bool'', ''pubkey'', ''string'', ''bytes''}"
  by (cases "numericTypes ty") auto

lemma decodeField_cursor:
  assumes "decodeField buffer offset ty = Inr (v, offset')"
  shows "offset \<le> offset' \<and> offset' \<le> length buffer"
proof (cases ty rule: field_kind_cases)
  case (numeric n s)
  with assms show ?thesis
    by (auto simp: decodeField_numeric split: if_splits sum.splits)
next
  case bool
  with assms show ?thesis
    by (auto simp: decodeField_bool split: if_splits)
next
  case pubkey
  with assms show ?thesis
    by (auto simp: decodeField_pubkey split: if_splits)
next
  case textual
  with assms show ?thesis
    by (auto simp: decodeField_text Let_def split: if_splits)
next
  case unsupported
  with assms show ?thesis
    by (simp add: decodeField_unsupported)
qed

lemma decodeField_agree:
  assumes ok: "decodeField b1 offset ty = Inr (v, offset')"
    and len: "offset' \<le> length b2"
    and eq: "take offset' b2 = take offset' b1"
  shows "decodeField b2 offset ty = Inr (v, offset')"
proof (cases ty rule: field_kind_cases)
  case (numeric n s)
  from ok numeric obtain x where l1: "offset + n \<le> length b1"
    and x: "readBigIntFromBuffer b1 offset n s = Inr x" and v: "v = Text (show_int x)"
    and o: "offset' = offset + n"
    by (auto simp: decodeField_numeric split: if_splits sum.splits)
  have "readBigIntFromBuffer b2 offset n s = readBigIntFromBuffer b1 offset n s"
    using l1 len eq unfolding o by (rule readBigInt_agree)
  then show ?thesis
    using numeric x v o len by (simp add: decodeField_numeric)
next
  case bool
  from ok bool have o: "offset' = offset + 1" and l1: "offset + 1 \<le> length b1"
    and v: "v = Text (if b1 ! offset = 1 then ''true'' else ''false'')"
    by (auto simp: decodeField_bool split: if_splits)
  have "b2 ! offset = b1 ! offset" using eq by (rule nth_agree) (simp add: o)
  then show ?thesis using bool o v len by (simp add: decodeField_bool)
next
  case pubkey
  from ok pubkey have o: "offset' = offset + 32" and l1: "offset + 32 \<le> length b1"
    and v: "v = Text (toBase58 (take 32 (drop offset b1)))"
    by (auto simp: decodeField_pubkey split: if_splits)
  have "take 32 (drop offset b2) = take 32 (drop offset b1)"
    using eq unfolding o by (rule take_drop_agree)
  then show ?thesis using pubkey o v len by (simp add: decodeField_pubkey)
next
  case textual
  let ?len = "readUInt32LE b1 offset"
  from ok textual have l1: "offset + 4 \<le> length b1" and l2: "offset + 4 + ?len \<le> length b1"
    and o: "offset' = offset + 4 + ?len"
    and v: "v = (if ty = ''string'' then Utf8Text (take ?len (drop (offset + 4) b1))
                 else Text (toHex (take ?len (drop (offset + 4) b1))))"
    by (auto simp: decodeField_text Let_def split: if_splits)
  have "take (offset + 4) b2 = take (offset + 4) b1"
    using eq by (rule take_agree_le) (simp add: o)
  then have r: "readUInt32LE b2 offset = ?len" by (rule readUInt32LE_agree)
  have t: "take ?len (drop (offset + 4) b2) = take ?len (drop (offset + 4) b1)"
    using eq unfolding o by (rule take_drop_agree)
  show ?thesis using textual len o v r t by (simp add: decodeField_text Let_def)
next
  case unsupported
  with ok show ?thesis by (simp add: decodeField_unsupported)
qed

lemma cursorAfter_mono:
  "cursorAfter buffer offset layout = Some c \<Longrightarrow> offset \<le> c"
proof (induction layout arbitrary: offset)
  case Nil
  then show ?case by simp
next
  case (Cons f fs)
  from Cons.prems obtain v offset' where
    d: "decodeField buffer offset (fieldType f) = Inr (v, offset')" and
    c: "cursorAfter buffer offset' fs = Some c"
    by (auto split: sum.splits)
  from decodeField_cursor [OF d] Cons.IH [OF c] show ?case by simp
qed

lemma cursorAfter_bound:
  "cursorAfter buffer offset layout = Some c \<Longrightarrow> offset \<le> length buffer \<Longrightarrow> c \<le> length buffer"
proof (induction layout arbitrary: offset)
  case Nil
  then show ?case by simp
next
  case (Cons f fs)
  from Cons.prems obtain v offset' where
    d: "decodeField buffer offset (fieldType f) = Inr (v, offset')" and
    c: "cursorAfter buffer offset' fs = Some c"
    by (auto split: sum.splits)
  from decodeField_cursor [OF d] Cons.IH [OF c] show ?case by simp
qed

lemma decodeLoop_agree:
  assumes "cursorAfter b1 offset layout = Some c" "c \<le> length b2" "take c b2 = take c b1"
  shows "decodeLoop b2 layout decoded offset = decodeLoop b1 layout decoded offset
         \<and> cursorAfter b2 offset layout = Some c"
  using assms
proof (induction layout arbitrary: decoded offset)
  case Nil
  then show ?case by simp
next
  case (Cons f fs)
  from Cons.prems(1) obtain v offset' where
    d1: "decodeField b1 offset (fieldType f) = Inr (v, offset')" and
    c1: "cursorAfter b1 offset' fs = Some c"
    by (auto split: sum.splits)
  have "offset' \<le> c" using c1 by (rule cursorAfter_mono)
  then have "offset' \<le> length b2" "take offset' b2 = take offset' b1"
    using Cons.prems(2,3) by (auto intro: take_agree_le)
  with d1 have d2: "decodeField b2 offset (fieldType f) = Inr (v, offset')"
    by (rule decodeField_agree)
  show ?case
    using d1 d2 Cons.IH [OF c1 Cons.prems(2,3)] by simp
qed


lemma no_space_not_error:
  assumes "CHR '' '' \<notin> set t"
  shows "\<not> startsWith t ''Decode error: ''"
proof
  assume "startsWith t ''Decode error: ''"
  then have e: "take (length ''Decode error: '') t = ''Decode error: ''"
    unfolding startsWith_def .
  have "CHR '' '' \<in> set ''Decode error: ''" by simp
  then have "CHR '' '' \<in> set (take (length ''Decode error: '') t)" unfolding e .
  then have "CHR '' '' \<in> set t" by (rule in_set_takeD)
  with assms show False by simp
qed

lemma digit_char_digit: "0 \<le> d \<Longrightarrow> d < 10 \<Longrightarrow> digit_char d \<in> set ''0123456789''"
proof -
  assume "0 \<le> d" "d < 10"
  then have "nat d < length ''0123456789''" by simp
  then show ?thesis unfolding digit_char_def by (rule nth_mem)
qed

lemma show_digits_chars: "0 \<le> n \<Longrightarrow> set (show_digits n) \<subseteq> set ''0123456789''"
proof (induction n rule: show_digits.induct)
  case (1 n)
  show ?case
  proof (cases "n < 10")
    case True
    then have "show_digits n = [digit_char n]" by (subst show_digits.simps) simp
    with digit_char_digit [OF "1.prems" True] show ?thesis by simp
  next
    case False
    then have eq: "show_digits n = show_digits (n div 10) @ [digit_char (n mod 10)]"
      by (subst show_digits.simps) simp
    have "digit_char (n mod 10) \<in> set ''0123456789''"
      by (rule digit_char_digit) simp_all
    moreover have "set (show_digits (n div 10)) \<subseteq> set ''0123456789''"
      using False "1.prems" by (intro "1.IH") simp_all
    ultimately show ?thesis unfolding eq by simp
  qed
qed

lemma show_int_no_space: "CHR '' '' \<notin> set (show_int v)"
proof (cases "v < 0")
  case True
  then have "set (show_digits (- v)) \<subseteq> set ''0123456789''" by (intro show_digits_chars) simp
  then show ?thesis using True by (auto simp: show_int_def)
next
  case False
  then have "set (show_digits v) \<subseteq> set ''0123456789''" by (intro show_digits_chars) simp
  then show ?thesis using False by (auto simp: show_int_def)
qed

lemma hex_char_hex: "d < 16 \<Longrightarrow> hex_char d \<in> set ''0123456789abcdef''"
proof -
  assume "d < 16"
  then have "d < length ''0123456789abcdef''" by simp
  then show ?thesis unfolding hex_char_def by (rule nth_mem)
qed

lemma toHex_no_space: "CHR '' '' \<notin> set (toHex bs)"
proof -
  have "set (toHex bs) \<subseteq> set ''0123456789abcdef''"
  proof (induction bs)
    case Nil
    then show ?case by (simp add: toHex_def)
  next
    case (Cons b bs)
    have "unat b < 256" using unsigned_less [of b] by simp
    then have "unat b div 16 < 16" by simp
    then have "hex_char (unat b div 16) \<in> set ''0123456789abcdef''"
      by (rule hex_char_hex)
    moreover have "hex_char (unat b mod 16) \<in> set ''0123456789abcdef''"
      by (rule hex_char_hex) simp
    ultimately show ?case using Cons.IH by (simp add: toHex_def)
  qed
  then show ?thesis by auto
qed

lemma base58_digits_chars: "set (base58_digits n) \<subseteq> set base58_alphabet"
proof (induction n rule: base58_digits.induct)
  case (1 n)
  show ?case
  proof (cases "n \<le> 0")
    case True
    then show ?thesis by (subst base58_digits.simps) simp
  next
    case False
    then have eq: "base58_digits n = base58_digits (n div 58) @ [base58_alphabet ! nat (n mod 58)]"
      by (subst base58_digits.simps) simp
    have "nat (n mod 58) < length base58_alphabet" by (simp add: base58_alphabet_def)
    then have "base58_alphabet ! nat (n mod 58) \<in> set base58_alphabet" by (rule nth_mem)
    then show ?thesis unfolding eq using "1.IH" [OF False] by simp
  qed
qed

lemma toBase58_no_space: "CHR '' '' \<notin> set (toBase58 bs)"
proof -
  have "CHR '' '' \<notin> set base58_alphabet" by (simp add: base58_alphabet_def)
  then have "CHR '' '' \<notin> set (base58_digits (be_int bs))" using base58_digits_chars by blast
  then show ?thesis by (simp add: toBase58_def)
qed

lemma decodeField_value_ok:
  assumes "decodeField buffer offset ty = Inr (v, offset')"
  shows "\<not> isDecodeError \<lparr>decodedName = n, decodedType = t, decodedValue = v\<rparr>"
proof (cases ty rule: field_kind_cases)
  case (numeric n s)
  with assms obtain x where "v = Text (show_int x)"
    by (auto simp: decodeField_numeric split: if_splits sum.splits)
  then show ?thesis by (simp add: isDecodeError_def no_space_not_error show_int_no_space)
next
  case bool
  with assms have "v = Text ''true'' \<or> v = Text ''false''"
    by (auto simp: decodeField_bool split: if_splits)
  then show ?thesis by (auto simp: isDecodeError_def startsWith_def)
next
  case pubkey
  with assms have "v = Text (toBase58 (take 32 (drop offset buffer)))"
    by (auto simp: decodeField_pubkey split: if_splits)
  then show ?thesis by (simp add: isDecodeError_def no_space_not_error toBase58_no_space)
next
  case textual
  with assms obtain bs where "v = Utf8Text bs \<or> v = Text (toHex bs)"
    by (auto simp: decodeField_text Let_def split: if_splits)
  then show ?thesis by (auto simp: isDecodeError_def no_space_not_error toHex_no_space)
next
  case unsupported
  with assms show ?thesis by (simp add: decodeField_unsupported)
qed

lemma decodeLoop_no_error:
  assumes "cursorAfter buffer offset layout = Some c" "\<forall>d \<in> set decoded. \<not> isDecodeError d"
  shows "\<forall>d \<in> set (decodeLoop buffer layout decoded offset). \<not> isDecodeError d"
  using assms
proof (induction layout arbitrary: decoded offset)
  case Nil
  then show ?case by simp
next
  case (Cons f fs)
  from Cons.prems(1) obtain v offset' where
    d: "decodeField buffer offset (fieldType f) = Inr (v, offset')" and
    c: "cursorAfter buffer offset' fs = Some c"
    by (auto split: sum.splits)
  let ?e = "\<lparr>decodedName = displayName f decoded, decodedType = fieldType f, decodedValue = v\<rparr>"
  have "\<not> isDecodeError ?e" using d by (rule decodeField_value_ok)
  with Cons.prems(2) have "\<forall>d \<in> set (decoded @ [?e]). \<not> isDecodeError d" by simp
  from Cons.IH [OF c this] show ?case using d by simp
qed


text \<open>
  C2, as the code has it: a field declared \<open>bool\<close> with at least one byte left at the
  cursor consumes exactly that byte (the next field is read one byte further) and yields
  \<open>true\<close> when the byte is exactly 1, \<open>false\<close> for every other byte, 0 and 2 .. 255.
\<close>

theorem decode_bool_one_byte:
  assumes "fieldType field = ''bool''" and "offset < length buffer"
  shows "decodeLoop buffer (field # layout) decoded offset =
           decodeLoop buffer layout
             (decoded @
                [\<lparr>decodedName = displayName field decoded, decodedType = ''bool'',
                  decodedValue = Text (if buffer ! offset = 1 then ''true'' else ''false'')\<rparr>])
             (offset + 1)"
  using assms by (simp add: decodeField_bool)

text \<open>Three \<open>bool\<close> fields over the bytes \<open>0A 01 00\<close>: only the byte 1 is \<open>true\<close>.\<close>

theorem decode_bool_one_byte_witness:
  "decodeWithLayout [0x0A, 0x01, 0x00]
     [\<lparr>fieldId = ''1'', fieldName = ''a'', fieldType = ''bool''\<rparr>,
      \<lparr>fieldId = ''2'', fieldName = ''b'', fieldType = ''bool''\<rparr>,
      \<lparr>fieldId = ''3'', fieldName = ''c'', fieldType = ''bool''\<rparr>] =
     [\<lparr>decodedName = ''a'', decodedType = ''bool'', decodedValue = Text ''false''\<rparr>,
      \<lparr>decodedName = ''b'', decodedType = ''bool'', decodedValue = Text ''true''\<rparr>,
      \<lparr>decodedName = ''c'', decodedType = ''bool'', decodedValue = Text ''false''\<rparr>]"
proof -
  let ?a = "\<lparr>fieldId = ''1'', fieldName = ''a'', fieldType = ''bool''\<rparr>"
  let ?b = "\<lparr>fieldId = ''2'', fieldName = ''b'', fieldType = ''bool''\<rparr>"
  let ?c = "\<lparr>fieldId = ''3'', fieldName = ''c'', fieldType = ''bool''\<rparr>"
  let ?buf = "[0x0A, 0x01, 0x00] :: buffer"
  have "fieldType ?a = ''bool''" and "(0::nat) < length ?buf"
    by simp_all
  from decode_bool_one_byte [OF this, of "[?b, ?c]" "[]"]
  have "decodeLoop ?buf [?a, ?b, ?c] [] 0 =
          decodeLoop ?buf [?b, ?c]
            [\<lparr>decodedName = displayName ?a [], decodedType = ''bool'',
              decodedValue = Text ''false''\<rparr>] 1"
    by simp
  also have "\<dots> = [\<lparr>decodedName = ''a'', decodedType = ''bool'', decodedValue = Text ''false''\<rparr>,
      \<lparr>decodedName = ''b'', decodedType = ''bool'', decodedValue = Text ''true''\<rparr>,
      \<lparr>decodedName = ''c'', decodedType = ''bool'', decodedValue = Text ''false''\<rparr>]"
    by code_simp
  finally show ?thesis
    by (simp add: decodeWithLayout_def)
qed

text \<open>The byte 2 is not zero, and the field decodes to \<open>false\<close>.\<close>

theorem decode_bool_nonzero_counterexample:
  "decodeWithLayout [0x02] [\<lparr>fieldId = ''1'', fieldName = ''flag'', fieldType = ''bool''\<rparr>] =
     [\<lparr>decodedName = ''flag'', decodedType = ''bool'', decodedValue = Text ''false''\<rparr>]"
  by code_simp

subsection \<open>The loop stops at the first field that throws\<close>

lemma decodeLoop_all_decoded:
  "cursorAfter buffer offset layout = Some c \<Longrightarrow>
   length (decodeLoop buffer layout decoded offset) = length decoded + length layout"
  by (induction layout arbitrary: decoded offset) (auto split: sum.splits prod.splits)




lemma decodeWithLayout_all_decoded:
  assumes "cursorAfter buffer 0 layout = Some c"
  shows "length (decodeWithLayout buffer layout) = length layout"
    and "\<forall>d \<in> set (decodeWithLayout buffer layout). \<not> isDecodeError d"
  using decodeLoop_all_decoded [OF assms, of "[]"] decodeLoop_no_error [OF assms, of "[]"]
  by (simp_all add: decodeWithLayout_def)



text \<open>
  C9: when every field of the layout decodes, the result has exactly one entry for each
  field, none of them an error, and the bytes behind the last field are ignored: the
  result is that of the payload cut at the final cursor, and of the payload followed by
  any further bytes.
\<close>

theorem decode_ignores_trailing_bytes:
  assumes "cursorAfter buffer 0 layout = Some c"
  shows "length (decodeWithLayout buffer layout) = length layout \<and>
         (\<forall>d \<in> set (decodeWithLayout buffer layout). \<not> isDecodeError d) \<and>
         c \<le> length buffer \<and>
         decodeWithLayout (take c buffer) layout = decodeWithLayout buffer layout \<and>
         decodeWithLayout (buffer @ surplus) layout = decodeWithLayout buffer layout"
proof -
  have c: "c \<le> length buffer" using assms by (rule cursorAfter_bound) simp
  have "decodeLoop (take c buffer) layout [] 0 = decodeLoop buffer layout [] 0"
    using decodeLoop_agree [OF assms, of "take c buffer" "[]"] c by simp
  moreover have "decodeLoop (buffer @ surplus) layout [] 0 = decodeLoop buffer layout [] 0"
    using decodeLoop_agree [OF assms, of "buffer @ surplus" "[]"] c by simp
  ultimately show ?thesis
    using decodeWithLayout_all_decoded [OF assms] c by (simp add: decodeWithLayout_def)
qed

text \<open>Two surplus bytes \<open>DE AD\<close> behind a \<open>u32\<close> and a \<open>bool\<close>.\<close>

theorem decode_ignores_trailing_bytes_witness:
  "cursorAfter [0x0A, 0x00, 0x00, 0x00, 0x01, 0xDE, 0xAD] 0
     [\<lparr>fieldId = ''1'', fieldName = ''amount'', fieldType = ''u32''\<rparr>,
      \<lparr>fieldId = ''2'', fieldName = ''active'', fieldType = ''bool''\<rparr>] = Some 5 \<and>
   decodeWithLayout [0x0A, 0x00, 0x00, 0x00, 0x01, 0xDE, 0xAD]
     [\<lparr>fieldId = ''1'', fieldName = ''amount'', fieldType = ''u32''\<rparr>,
      \<lparr>fieldId = ''2'', fieldName = ''active'', fieldType = ''bool''\<rparr>] =
   decodeWithLayout [0x0A, 0x00, 0x00, 0x00, 0x01]
     [\<lparr>fieldId = ''1'', fieldName = ''amount'', fieldType = ''u32''\<rparr>,
      \<lparr>fieldId = ''2'', fieldName = ''active'', fieldType = ''bool''\<rparr>] \<and>
   length (decodeWithLayout [0x0A, 0x00, 0x00, 0x00, 0x01, 0xDE, 0xAD]
     [\<lparr>fieldId = ''1'', fieldName = ''amount'', fieldType = ''u32''\<rparr>,
      \<lparr>fieldId = ''2'', fieldName = ''active'', fieldType = ''bool''\<rparr>]) = 2"
proof -
  let ?buf = "[0x0A, 0x00, 0x00, 0x00, 0x01, 0xDE, 0xAD] :: buffer"
  let ?lay = "[\<lparr>fieldId = ''1'', fieldName = ''amount'', fieldType = ''u32''\<rparr>,
      \<lparr>fieldId = ''2'', fieldName = ''active'', fieldType = ''bool''\<rparr>]"
  have h: "cursorAfter ?buf 0 ?lay = Some 5" by code_simp
  from decode_ignores_trailing_bytes [OF h]
  have "length (decodeWithLayout ?buf ?lay) = length ?lay"
    and "decodeWithLayout (take 5 ?buf) ?lay = decodeWithLayout ?buf ?lay"
    by blast+
  with h show ?thesis by simp
qed

section \<open>Properties of the argument encoder\<close>

subsection \<open>Buffers keep their length\<close>

lemma andThen_Inr: "andThen r f = Inr y \<longleftrightarrow> (\<exists>x. r = Inr x \<and> f x = Inr y)"
  by (cases r) (simp_all add: andThen_def)

lemma andThen_simps: "andThen (Inr x) f = f x" "andThen (Inl e) f = Inl e"
  by (simp_all add: andThen_def)

lemma toUint32_id: "n < 4294967296 \<Longrightarrow> toUint32 n = n"
  by (simp add: toUint32_def)

lemma fold_update_length:
  "length (fold (\<lambda>i b. b[g i := h i]) is buf) = length buf"
  by (induction "is" arbitrary: buf) simp_all

lemma storeLE_length: "length (storeLE buf v offset ext) = length buf"
  unfolding storeLE_def by (rule fold_update_length)

lemma writeIntLE_length:
  "writeIntLE buf v offset ext maxv minv = Inr b \<Longrightarrow> length b = length buf"
  by (auto simp: writeIntLE_def Let_def andThen_Inr storeLE_length)

lemma writeIntLE_ok:
  "minv \<le> v \<Longrightarrow> v \<le> maxv \<Longrightarrow> offset + ext \<le> length buf \<Longrightarrow> offset < 4294967296 \<Longrightarrow>
   writeIntLE buf v offset ext maxv minv = Inr (storeLE buf v offset ext)"
  by (simp add: writeIntLE_def toUint32_id checkInt_def andThen_simps)

lemma bigIntFold_length:
  "length (fst (fold (bigIntStep offset) is st)) = length (fst st)"
proof (induction "is" arbitrary: st)
  case Nil
  then show ?case by simp
next
  case (Cons i "is")
  obtain b n where st: "st = (b, n)" by (cases st)
  show ?case using Cons.IH [of "bigIntStep offset i st"] by (simp add: st bigIntStep_def)
qed

lemma writeBigIntToBuffer_length:
  "writeBigIntToBuffer buf raw offset typeName name = Inr (b, written) \<Longrightarrow> length b = length buf"
  by (auto simp: writeBigIntToBuffer_def Let_def andThen_Inr bigIntFold_length split: option.splits)

lemma copy_length: "length (copy source target start) = length target"
  by (auto simp: copy_def Let_def min_def)

lemma encodeString_length:
  "encodeString buf offset v = Inr (b, offset') \<Longrightarrow> length b = length buf"
  by (auto simp: encodeString_def andThen_Inr copy_length writeUInt32LE_def dest: writeIntLE_length)

lemma encodeNumber_length:
  assumes "encodeNumber toNumber buf offset v name typeName resolved bits writeU writeI = Inr (b, offset')"
    and "\<And>x o' b'. writeU buf x o' = Inr b' \<Longrightarrow> length b' = length buf"
    and "\<And>x o' b'. writeI buf x o' = Inr b' \<Longrightarrow> length b' = length buf"
  shows "length b = length buf"
  using assms by (auto simp: encodeNumber_def andThen_Inr split: if_splits)

lemma encodeArg_length:
  assumes "encodeArg toNumber buf offset arg v = Inr (b, offset')"
  shows "length b = length buf"
proof -
  let ?t = "js_toLowerCase (resolveArgType (argType arg))"
  consider (big) "?t = ''u64'' \<or> ?t = ''u128'' \<or> ?t = ''i64'' \<or> ?t = ''i128''"
    | (n32) "?t = ''u32'' \<or> ?t = ''i32''"
    | (n16) "?t = ''u16'' \<or> ?t = ''i16''"
    | (n8) "?t = ''u8'' \<or> ?t = ''i8''"
    | (str) "?t = ''string''"
    | (bool) "?t = ''bool''"
    | (key) "?t = ''publickey'' \<or> ?t = ''pubkey''"
    | (other) "?t \<notin> {''u64'', ''u128'', ''i64'', ''i128'', ''u32'', ''i32'', ''u16'', ''i16'', ''u8'', ''i8'', ''string'', ''bool'', ''publickey'', ''pubkey''}"
    by blast
  then show ?thesis
  proof cases
    case big
    with assms show ?thesis
      by (auto simp: encodeArg_def Let_def andThen_Inr dest: writeBigIntToBuffer_length)
  next
    case n32
    with assms have "encodeNumber toNumber buf offset v (argName arg) ?t (resolveArgType (argType arg)) 32 writeUInt32LE writeInt32LE = Inr (b, offset')"
      by (auto simp: encodeArg_def Let_def)
    then show ?thesis
      by (rule encodeNumber_length) (auto simp: writeUInt32LE_def writeInt32LE_def dest: writeIntLE_length)
  next
    case n16
    with assms have "encodeNumber toNumber buf offset v (argName arg) ?t (resolveArgType (argType arg)) 16 writeUInt16LE writeInt16LE = Inr (b, offset')"
      by (auto simp: encodeArg_def Let_def)
    then show ?thesis
      by (rule encodeNumber_length) (auto simp: writeUInt16LE_def writeInt16LE_def dest: writeIntLE_length)
  next
    case n8
    with assms have "encodeNumber toNumber buf offset v (argName arg) ?t (resolveArgType (argType arg)) 8 writeUInt8 writeInt8 = Inr (b, offset')"
      by (auto simp: encodeArg_def Let_def)
    then show ?thesis
      by (rule encodeNumber_length) (auto simp: writeUInt8_def writeInt8_def dest: writeIntLE_length)
  next
    case str
    with assms show ?thesis
      by (auto simp: encodeArg_def Let_def dest: encodeString_length)
  next
    case bool
    with assms show ?thesis
      by (auto simp: encodeArg_def Let_def andThen_Inr writeUInt8_def split: if_splits dest: writeIntLE_length)
  next
    case key
    with assms show ?thesis
      by (auto simp: encodeArg_def Let_def copy_length split: option.splits)
  next
    case other
    with assms show ?thesis
      by (auto simp: encodeArg_def Let_def dest: encodeString_length)
  qed
qed


lemma storeLE_one: "storeLE buf v offset (Suc 0) = buf[offset := word_of_int v]"
  by (simp add: storeLE_def)

lemma writeUInt8_ok:
  "0 \<le> v \<Longrightarrow> v \<le> 255 \<Longrightarrow> offset < length buf \<Longrightarrow> offset < 4294967296 \<Longrightarrow>
   writeUInt8 buf v offset = Inr (buf[offset := word_of_int v])"
  by (simp add: writeUInt8_def writeIntLE_ok storeLE_one)

lemma encodeArg_bool:
  "js_toLowerCase (resolveArgType (argType arg)) = ''bool'' \<Longrightarrow>
   encodeArg toNumber argsBuffer offset arg v =
     (let normalized = js_toLowerCase (js_trim (case v of None \<Rightarrow> [] | Some s \<Rightarrow> s))
      in if normalized = [] \<or> normalized = ''false'' \<or> normalized = ''0'' then
           andThen (writeUInt8 argsBuffer 0 offset) (\<lambda>argsBuffer. Inr (argsBuffer, offset + 1))
         else if normalized = ''true'' \<or> normalized = ''1'' then
           andThen (writeUInt8 argsBuffer 1 offset) (\<lambda>argsBuffer. Inr (argsBuffer, offset + 1))
         else Inl (InvalidBool (argName arg)))"
  by (simp add: encodeArg_def)




subsection \<open>The bytes written for an integer\<close>

lemma byte_of_drop_bit_mod:
  assumes "i < n"
  shows "(word_of_int (v mod 2 ^ (8 * n) div 2 ^ (8 * i)) :: byte) = word_of_int (drop_bit (8 * i) v)"
proof (rule bit_word_eqI)
  fix k assume k: "k < LENGTH(8)"
  have "8 * i + k < 8 * n" using assms k by simp
  then show "bit (word_of_int (v mod 2 ^ (8 * n) div 2 ^ (8 * i)) :: byte) k
        = bit (word_of_int (drop_bit (8 * i) v) :: byte) k"
    using k by (simp add: bit_word_of_int_iff flip: take_bit_eq_mod drop_bit_eq_div)
      (simp add: bit_simps)
qed

lemma littleEndian_alt:
  "littleEndian v n = map (\<lambda>i. word_of_int (drop_bit (8 * i) v)) [0..<n]"
  unfolding littleEndian_def by (rule map_cong) (simp_all add: byte_of_drop_bit_mod)

lemma fold_update_upt:
  "offset + n \<le> length buf \<Longrightarrow>
   fold (\<lambda>i b. b[offset + i := f i]) [0..<n] buf =
     take offset buf @ map f [0..<n] @ drop (offset + n) buf"
proof (induction n)
  case 0
  then show ?case by simp
next
  case (Suc n)
  then have IH: "fold (\<lambda>i b. b[offset + i := f i]) [0..<n] buf =
     take offset buf @ map f [0..<n] @ drop (offset + n) buf" by simp
  have d: "drop (offset + n) buf = buf ! (offset + n) # drop (Suc (offset + n)) buf"
    using Suc.prems by (simp add: Cons_nth_drop_Suc)
  have "(take offset buf @ map f [0..<n] @ drop (offset + n) buf)[offset + n := f n]
      = take offset buf @ map f [0..<n] @ f n # drop (Suc (offset + n)) buf"
    using Suc.prems by (simp add: d list_update_append)
  then show ?case by (simp add: IH)
qed

lemma storeLE_bytes:
  "offset + ext \<le> length buf \<Longrightarrow>
   storeLE buf v offset ext = take offset buf @ littleEndian v ext @ drop (offset + ext) buf"
  by (simp add: storeLE_def fold_update_upt littleEndian_alt)

lemma byte_and_ff: "(word_of_int (x AND 0xff) :: byte) = word_of_int x"
proof -
  have "(0xff::int) = mask 8" by (simp add: mask_eq_exp_minus_1)
  then have "x AND 0xff = take_bit 8 x" by (simp add: take_bit_eq_mask)
  then show ?thesis
    by (simp only:) (rule bit_word_eqI, simp add: bit_simps)
qed

lemma bigIntFold_state:
  "fold (bigIntStep offset) [0..<n] (buf, x) =
     (fold (\<lambda>i b. b[offset + i := word_of_int (drop_bit (8 * i) x)]) [0..<n] buf,
      drop_bit (8 * n) x)"
proof (induction n)
  case 0
  then show ?case by simp
next
  case (Suc n)
  then show ?case
    by (simp add: bigIntStep_def byte_and_ff add.commute)
qed

lemma bigIntFold_bytes:
  "offset + n \<le> length buf \<Longrightarrow>
   fst (fold (bigIntStep offset) [0..<n] (buf, x)) =
     take offset buf @ littleEndian x n @ drop (offset + n) buf"
  by (simp add: bigIntFold_state fold_update_upt littleEndian_alt)

lemma littleEndian_wrap: "littleEndian (push_bit (8 * n) 1 + v) n = littleEndian v n"
  by (simp add: littleEndian_def push_bit_eq_mult)

lemma littleEndian_length: "length (littleEndian v n) = n"
  by (simp add: littleEndian_def)

lemma readLoop_append:
  "readLoop buffer offset (xs @ ys) result =
     (case readLoop buffer offset xs result of
        Inl e \<Rightarrow> Inl e
      | Inr r \<Rightarrow> readLoop buffer offset ys r)"
  by (induction xs arbitrary: result) simp_all

lemma or_next_byte:
  "take_bit (8 * k) v OR push_bit (8 * k) (uint (word_of_int (drop_bit (8 * k) v) :: byte))
     = take_bit (8 * Suc k) (v :: int)"
  by (rule bit_eqI) (auto simp: bit_simps)

lemma readLoop_littleEndian:
  assumes "k \<le> n"
  shows "readLoop (pre @ littleEndian v n @ post) (length pre) [0..<k] 0 = Inr (take_bit (8 * k) v)"
  using assms
proof (induction k)
  case 0
  then show ?case by simp
next
  case (Suc k)
  let ?B = "pre @ littleEndian v n @ post"
  from Suc have IH: "readLoop ?B (length pre) [0..<k] 0 = Inr (take_bit (8 * k) v)"
    and k: "k < n" by simp_all
  have b: "?B ! (length pre + k) = word_of_int (drop_bit (8 * k) v)"
    using k by (simp add: nth_append littleEndian_alt)
  have l: "length pre + k < length ?B"
    using k by (simp add: littleEndian_length)
  have "readLoop ?B (length pre) [0..<Suc k] 0 = readLoop ?B (length pre) [k] (take_bit (8 * k) v)"
    by (simp only: upt_Suc_append [OF le0] readLoop_append IH sum.case)
  also have "\<dots> = Inr (take_bit (8 * k) v OR push_bit (8 * k) (uint (?B ! (length pre + k))))"
    using l by (simp only: readLoop.simps if_True)
  also have "\<dots> = Inr (take_bit (8 * Suc k) v)"
    by (simp only: b or_next_byte)
  finally show ?case .
qed

lemma signed_fix:
  assumes "0 < n" "- (2 ^ (8 * n - 1)) \<le> v" "v < 2 ^ (8 * n - 1)"
  shows "(let max = push_bit (n * 8) (1::int); threshold = drop_bit 1 max
          in if True \<and> take_bit (8 * n) v \<ge> threshold then Inr (take_bit (8 * n) v - max)
             else Inr (take_bit (8 * n) v)) = (Inr v :: string + int)"
proof -
  define T :: int where "T = 2 ^ (8 * n - 1)"
  have p: "(2::int) ^ (8 * n) = 2 * T"
    using assms(1) unfolding T_def by (cases "8 * n") simp_all
  have m: "push_bit (n * 8) (1::int) = 2 * T"
    using p by (simp add: push_bit_eq_mult mult.commute)
  have t: "drop_bit 1 (2 * T) = T"
    by (simp add: drop_bit_eq_div)
  have v: "- T \<le> v" "v < T" using assms by (simp_all add: T_def)
  have tb: "take_bit (8 * n) v = (if 0 \<le> v then v else v + 2 * T)"
  proof (cases "0 \<le> v")
    case True
    then have "v < 2 ^ (8 * n)" using v p by simp
    with True show ?thesis by (simp add: take_bit_int_eq_self)
  next
    case False
    have "take_bit (8 * n) v = v mod (2 * T)" by (simp add: take_bit_eq_mod p)
    also have "\<dots> = (v + 2 * T) mod (2 * T)" by simp
    also have "\<dots> = v + 2 * T" using v False by (intro mod_pos_pos_trivial) simp_all
    finally show ?thesis using False by simp
  qed
  show ?thesis
    unfolding Let_def m t tb using v by simp
qed

lemma readBigInt_signed:
  assumes "0 < n" "- (2 ^ (8 * n - 1)) \<le> v" "v < 2 ^ (8 * n - 1)"
  shows "readBigIntFromBuffer (pre @ littleEndian v n @ post) (length pre) n True = Inr v"
  unfolding readBigIntFromBuffer_def readLoop_littleEndian [OF order_refl] sum.case
  using assms by (rule signed_fix)

lemma readBigInt_unsigned:
  assumes "0 \<le> v" "v < 2 ^ (8 * n)"
  shows "readBigIntFromBuffer (pre @ littleEndian v n @ post) (length pre) n False = Inr v"
proof -
  have "take_bit (8 * n) v = v" using assms by (simp add: take_bit_int_eq_self)
  then show ?thesis
    by (simp add: readBigIntFromBuffer_def readLoop_littleEndian)
qed

lemma encodeNumber_generic:
  assumes parse: "parseIntegerInput toNumber raw name = Inr v"
    and wU: "\<And>b x o'. writeU b x o' = writeIntLE b x o' (bits div 8) (2 ^ bits - 1) 0"
    and wI: "\<And>b x o'. writeI b x o' = writeIntLE b x o' (bits div 8) (2 ^ (bits - 1) - 1) (- (2 ^ (bits - 1)))"
    and sg: "startsWith typeName ''i'' = sg" "startsWith typeName ''u'' = (\<not> sg)"
    and room: "length buf = 1024" "offset + bits div 8 \<le> 1024"
    and lo: "lo = (if sg then - (2 ^ (bits - 1)) else 0)"
    and hi: "hi = (if sg then 2 ^ (bits - 1) - 1 else 2 ^ bits - 1)"
  shows "encodeNumber toNumber buf offset raw name typeName resolved bits writeU writeI =
     (if lo \<le> v \<and> v \<le> hi
      then Inr (take offset buf @ littleEndian v (bits div 8) @ drop (offset + bits div 8) buf,
                offset + bits div 8)
      else Inl (OutOfRange name v resolved))"
proof (cases "lo \<le> v \<and> v \<le> hi")
  case False
  then show ?thesis
    using lo hi by (auto simp: encodeNumber_def parse andThen_simps ensureNumberRange_def sg)
next
  case True
  have o: "offset < 4294967296" using room by simp
  have l: "offset + bits div 8 \<le> length buf" using room by simp
  have range: "ensureNumberRange v bits sg name resolved = Inr ()"
    using True lo hi by (auto simp: ensureNumberRange_def)
  have w: "(if \<not> sg then writeU buf v offset else writeI buf v offset)
         = Inr (storeLE buf v offset (bits div 8))"
    using True lo hi by (auto simp: wU wI intro!: writeIntLE_ok [OF _ _ l o])
  show ?thesis
    using True by (simp add: encodeNumber_def parse andThen_simps sg range w storeLE_bytes [OF l])
qed

lemma writeBigInt_generic:
  assumes len: "BIGINT_BYTE_LENGTH typeName = Some n"
    and parse: "parseBigIntInput raw name = Inr v"
    and sg: "startsWith typeName ''i'' = sg"
    and room: "offset + n \<le> length buf" and n: "0 < n"
    and lo: "lo = (if sg then - (2 ^ (n * 8 - 1)) else 0)"
    and hi: "hi = (if sg then 2 ^ (n * 8 - 1) - 1 else 2 ^ (n * 8) - 1)"
  shows "writeBigIntToBuffer buf raw offset typeName name =
     (if lo \<le> v \<and> v \<le> hi
      then Inr (take offset buf @ littleEndian v n @ drop (offset + n) buf, n)
      else if \<not> sg \<and> v < 0 then Inl (NegativeUnsigned name typeName)
      else Inl (OutOfRange name v typeName))"
proof (cases "lo \<le> v \<and> v \<le> hi")
  case False
  then show ?thesis
    using lo hi
    by (auto simp: writeBigIntToBuffer_def len parse andThen_simps Let_def sg
        ensureBigIntRange_def push_bit_eq_mult)
next
  case True
  have range: "ensureBigIntRange v (n * 8) sg name typeName = Inr ()"
  proof (cases sg)
    case True
    with \<open>lo \<le> v \<and> v \<le> hi\<close> lo hi show ?thesis
      by (simp add: ensureBigIntRange_def push_bit_eq_mult Let_def)
  next
    case False
    with \<open>lo \<le> v \<and> v \<le> hi\<close> lo hi show ?thesis
      by (simp add: ensureBigIntRange_def push_bit_eq_mult Let_def)
  qed
  have w: "littleEndian (if sg \<and> v < 0 then push_bit (n * 8) 1 + v else v) n = littleEndian v n"
    using littleEndian_wrap [of n v] by (simp add: mult.commute)
  show ?thesis
    using True
    by (simp add: writeBigIntToBuffer_def len parse andThen_simps Let_def sg range
        bigIntFold_bytes [OF room] w)
qed


lemma numeric_kinds:
  assumes "NUMERIC_TYPE_INFO kind = Some (bits, sg, big)"
  shows "(kind, bits, sg, big) \<in>
     {(''u8'', 8, False, False), (''u16'', 16, False, False), (''u32'', 32, False, False),
      (''i8'', 8, True, False), (''i16'', 16, True, False), (''i32'', 32, True, False),
      (''u64'', 64, False, True), (''u128'', 128, False, True),
      (''i64'', 64, True, True), (''i128'', 128, True, True)}"
  using assms by (auto simp: NUMERIC_TYPE_INFO_def split: if_splits)

lemma encodeArg_small:
  assumes kind: "(kind, bits, sg) \<in>
     {(''u8'', 8, False), (''u16'', 16, False), (''u32'', 32, False),
      (''i8'', 8, True), (''i16'', 16, True), (''i32'', 32, True)}"
    and arg: "js_toLowerCase (resolveArgType (argType arg)) = kind"
    and parse: "parseIntegerInput toNumber raw (argName arg) = Inr v"
    and room: "length buf = 1024" "offset + bits div 8 \<le> 1024"
    and lo: "lo = (if sg then - (2 ^ (bits - 1)) else 0)"
    and hi: "hi = (if sg then 2 ^ (bits - 1) - 1 else 2 ^ bits - 1)"
  shows "encodeArg toNumber buf offset arg raw =
     (if lo \<le> v \<and> v \<le> hi
      then Inr (take offset buf @ littleEndian v (bits div 8) @ drop (offset + bits div 8) buf,
                offset + bits div 8)
      else Inl (OutOfRange (argName arg) v (resolveArgType (argType arg))))"
proof -
  from kind consider
      (u8) "kind = ''u8''" "bits = 8" "\<not> sg" | (u16) "kind = ''u16''" "bits = 16" "\<not> sg"
    | (u32) "kind = ''u32''" "bits = 32" "\<not> sg" | (i8) "kind = ''i8''" "bits = 8" "sg"
    | (i16) "kind = ''i16''" "bits = 16" "sg" | (i32) "kind = ''i32''" "bits = 32" "sg"
    by auto
  then show ?thesis
  proof cases
    case u8
    have "encodeArg toNumber buf offset arg raw =
        encodeNumber toNumber buf offset raw (argName arg) kind (resolveArgType (argType arg)) bits
          writeUInt8 writeInt8"
      using arg u8 by (simp add: encodeArg_def)
    also note encodeNumber_generic [OF parse _ _ _ _ room lo hi]
    finally show ?thesis
      using u8 by (simp add: writeUInt8_def writeInt8_def startsWith_def)
  next
    case u16
    have "encodeArg toNumber buf offset arg raw =
        encodeNumber toNumber buf offset raw (argName arg) kind (resolveArgType (argType arg)) bits
          writeUInt16LE writeInt16LE"
      using arg u16 by (simp add: encodeArg_def)
    also note encodeNumber_generic [OF parse _ _ _ _ room lo hi]
    finally show ?thesis
      using u16 by (simp add: writeUInt16LE_def writeInt16LE_def startsWith_def)
  next
    case u32
    have "encodeArg toNumber buf offset arg raw =
        encodeNumber toNumber buf offset raw (argName arg) kind (resolveArgType (argType arg)) bits
          writeUInt32LE writeInt32LE"
      using arg u32 by (simp add: encodeArg_def)
    also note encodeNumber_generic [OF parse _ _ _ _ room lo hi]
    finally show ?thesis
      using u32 by (simp add: writeUInt32LE_def writeInt32LE_def startsWith_def)
  next
    case i8
    have "encodeArg toNumber buf offset arg raw =
        encodeNumber toNumber buf offset raw (argName arg) kind (resolveArgType (argType arg)) bits
          writeUInt8 writeInt8"
      using arg i8 by (simp add: encodeArg_def)
    also note encodeNumber_generic [OF parse _ _ _ _ room lo hi]
    finally show ?thesis
      using i8 by (simp add: writeUInt8_def writeInt8_def startsWith_def)
  next
    case i16
    have "encodeArg toNumber buf offset arg raw =
        encodeNumber toNumber buf offset raw (argName arg) kind (resolveArgType (argType arg)) bits
          writeUInt16LE writeInt16LE"
      using arg i16 by (simp add: encodeArg_def)
    also note encodeNumber_generic [OF parse _ _ _ _ room lo hi]
    finally show ?thesis
      using i16 by (simp add: writeUInt16LE_def writeInt16LE_def startsWith_def)
  next
    case i32
    have "encodeArg toNumber buf offset arg raw =
        encodeNumber toNumber buf offset raw (argName arg) kind (resolveArgType (argType arg)) bits
          writeUInt32LE writeInt32LE"
      using arg i32 by (simp add: encodeArg_def)
    also note encodeNumber_generic [OF parse _ _ _ _ room lo hi]
    finally show ?thesis
      using i32 by (simp add: writeUInt32LE_def writeInt32LE_def startsWith_def)
  qed
qed

lemma encodeArg_big:
  assumes kind: "(kind, bits, sg) \<in>
     {(''u64'', 64, False), (''u128'', 128, False), (''i64'', 64, True), (''i128'', 128, True)}"
    and arg: "js_toLowerCase (resolveArgType (argType arg)) = kind"
    and parse: "parseBigIntInput raw (argName arg) = Inr v"
    and room: "length buf = 1024" "offset + bits div 8 \<le> 1024"
    and lo: "lo = (if sg then - (2 ^ (bits - 1)) else 0)"
    and hi: "hi = (if sg then 2 ^ (bits - 1) - 1 else 2 ^ bits - 1)"
  shows "encodeArg toNumber buf offset arg raw =
     (if lo \<le> v \<and> v \<le> hi
      then Inr (take offset buf @ littleEndian v (bits div 8) @ drop (offset + bits div 8) buf,
                offset + bits div 8)
      else if \<not> sg \<and> v < 0 then Inl (NegativeUnsigned (argName arg) kind)
      else Inl (OutOfRange (argName arg) v kind))"
proof -
  have e: "encodeArg toNumber buf offset arg raw =
      andThen (writeBigIntToBuffer buf raw offset kind (argName arg))
        (\<lambda>(argsBuffer, written). Inr (argsBuffer, offset + written))"
    using kind arg by (auto simp: encodeArg_def)
  from kind have k: "BIGINT_BYTE_LENGTH kind = Some (bits div 8)" "startsWith kind ''i'' = sg"
    "0 < bits div 8" "bits div 8 * 8 = bits"
    by (auto simp: BIGINT_BYTE_LENGTH_def startsWith_def)
  have r: "offset + bits div 8 \<le> length buf" using room by simp
  note w = writeBigInt_generic [OF k(1) parse k(2) r k(3), unfolded k(4), OF lo hi]
  show ?thesis
    unfolding e w by (simp add: andThen_simps)
qed

subsection \<open>The whole call\<close>

lemma list8:
  assumes "length s = 8"
  obtains a b c d e f g h where "s = [a, b, c, d, e, f, g, h]"
proof -
  from assms have "length s = Suc (Suc (Suc (Suc (Suc (Suc (Suc (Suc 0)))))))" by simp
  then obtain a b c d e f g h where "s = [a, b, c, d, e, f, g, h]"
    by (auto simp: length_Suc_conv)
  then show ?thesis by (rule that)
qed

lemma sha_round_length: "length s = 8 \<Longrightarrow> length (sha_round s kw) = 8"
  by (erule list8) (cases kw, simp add: Let_def)

lemma foldl_sha_round_length: "length s = 8 \<Longrightarrow> length (foldl sha_round s kws) = 8"
  by (induction kws arbitrary: s) (simp_all add: sha_round_length)

lemma compress_length: "length h = 8 \<Longrightarrow> length (compress h block) = 8"
  by (simp add: compress_def Let_def foldl_sha_round_length)

lemma foldl_compress_length: "length h = 8 \<Longrightarrow> length (foldl compress h blocks) = 8"
  by (induction blocks arbitrary: h) (simp_all add: compress_length)

lemma concat_word32_bytes_length: "length (concat (map word32_bytes ws)) = 4 * length ws"
  by (induction ws) (simp_all add: word32_bytes_def)

lemma sha256_length: "length (sha256 m) = 32"
  by (simp add: sha256_def concat_word32_bytes_length foldl_compress_length sha_h0_def)

lemma discriminator_length: "length (getInstructionDiscriminator name) = 8"
  by (simp add: getInstructionDiscriminator_def Let_def sha256_length)



lemma slice0_length: "length (slice0 buf e) \<le> length buf"
  by (simp add: slice0_def Let_def)



lemma encodeLoop_length:
  "encodeLoop toNumber argValues args (buf, offset) = Inr (b, offset') \<Longrightarrow> length b = length buf"
proof (induction args arbitrary: buf offset)
  case Nil
  then show ?case by simp
next
  case (Cons a as)
  from Cons.prems obtain b1 o1 where
    a: "encodeArg toNumber buf offset a (argValues (argName a)) = Inr (b1, o1)" and
    r: "encodeLoop toNumber argValues as (b1, o1) = Inr (b, offset')"
    by (auto simp: andThen_Inr)
  from encodeArg_length [OF a] Cons.IH [OF r] show ?case by simp
qed

lemma encodeArgs_bounded:
  "encodeArgs toNumber discriminator args argValues = Inr out \<Longrightarrow> length out \<le> 1024"
proof -
  assume "encodeArgs toNumber discriminator args argValues = Inr out"
  then obtain b offset where
    l: "encodeLoop toNumber argValues args (copy discriminator (replicate 1024 0) 0, 8) = Inr (b, offset)"
    and o: "out = slice0 b offset"
    by (auto simp: encodeArgs_def Let_def andThen_Inr)
  from encodeLoop_length [OF l] have "length b = 1024" by (simp add: copy_length)
  with slice0_length [of b offset] o show ?thesis by simp
qed

subsection \<open>Booleans and missing text\<close>

text \<open>
  C8: an argument of kind \<open>bool\<close> is encoded from its text, trimmed and lower-cased: the
  empty text, \<open>false\<close> and \<open>0\<close> give the single byte \<open>00\<close>, \<open>true\<close> and \<open>1\<close> the single
  byte \<open>01\<close>, written at the offset, which advances by one; every other text fails with
  \<open>InvalidBool\<close>, whatever the buffer and the offset. The byte needs room in the buffer
  of 1024 bytes, \<open>offset < 1024\<close>.
\<close>

theorem encode_bool:
  assumes "js_toLowerCase (resolveArgType (argType arg)) = ''bool''"
    and "normalized = js_toLowerCase (js_trim (case v of None \<Rightarrow> [] | Some s \<Rightarrow> s))"
    and "length argsBuffer = 1024" and "offset < 1024"
  shows "encodeArg toNumber argsBuffer offset arg v =
           (if normalized \<in> {[], ''false'', ''0''}
            then Inr (argsBuffer[offset := 0x00], offset + 1)
            else if normalized \<in> {''true'', ''1''}
            then Inr (argsBuffer[offset := 0x01], offset + 1)
            else Inl (InvalidBool (argName arg)))
         \<and> (normalized \<notin> {[], ''false'', ''0'', ''true'', ''1''} \<longrightarrow>
              encodeArg toNumber anyBuffer anyOffset arg v = Inl (InvalidBool (argName arg)))"
  using assms by (simp add: encodeArg_bool writeUInt8_ok andThen_simps)

text \<open>\<open>" TRUE "\<close>, a missing value and \<open>"yes"\<close> for a \<open>bool\<close> argument at offset 8.\<close>

theorem encode_bool_witness:
  "encodeArg (\<lambda>t. Not_Finite) (replicate 1024 0) 8
     \<lparr>argName = ''flag'', argType = IdlString ''bool''\<rparr> (Some '' TRUE '') =
     Inr ((replicate 1024 0)[8 := 0x01], 9)
   \<and> encodeArg (\<lambda>t. Not_Finite) (replicate 1024 0) 8
     \<lparr>argName = ''flag'', argType = IdlOption (IdlString ''Bool'')\<rparr> None =
     Inr ((replicate 1024 0)[8 := 0x00], 9)
   \<and> encodeArg (\<lambda>t. Not_Finite) (replicate 1024 0) 8
     \<lparr>argName = ''flag'', argType = IdlString ''bool''\<rparr> (Some ''yes'') =
     Inl (InvalidBool ''flag'')"
proof -
  let ?a = "\<lparr>argName = ''flag'', argType = IdlString ''bool''\<rparr>"
  let ?b = "\<lparr>argName = ''flag'', argType = IdlOption (IdlString ''Bool'')\<rparr>"
  let ?buf = "replicate 1024 0 :: buffer"
  have ta: "js_toLowerCase (resolveArgType (argType ?a)) = ''bool''"
    and tb: "js_toLowerCase (resolveArgType (argType ?b)) = ''bool''"
    by code_simp+
  have n1: "''true'' = js_toLowerCase (js_trim (case Some '' TRUE '' of None \<Rightarrow> [] | Some s \<Rightarrow> s))"
    and n2: "[] = js_toLowerCase (js_trim (case None of None \<Rightarrow> [] | Some s \<Rightarrow> s))"
    and n3: "''yes'' = js_toLowerCase (js_trim (case Some ''yes'' of None \<Rightarrow> [] | Some s \<Rightarrow> s))"
    by code_simp+
  have l: "length ?buf = 1024" and o: "(8::nat) < 1024" by simp_all
  from encode_bool [OF ta n1 l o] encode_bool [OF tb n2 l o] encode_bool [OF ta n3 l o]
  show ?thesis by simp
qed



subsection \<open>Range validation\<close>

lemma encodeArg_integer:
  assumes "NUMERIC_TYPE_INFO kind = Some (bits, sg, big)"
    and "js_toLowerCase (resolveArgType (argType arg)) = kind"
    and "(if big then parseBigIntInput raw (argName arg)
          else parseIntegerInput toNumber raw (argName arg)) = Inr v"
    and "lo = (if sg then - (2 ^ (bits - 1)) else 0)"
    and "hi = (if sg then 2 ^ (bits - 1) - 1 else 2 ^ bits - 1)"
    and "length argsBuffer = 1024" and "offset + bits div 8 \<le> 1024"
  shows "encodeArg toNumber argsBuffer offset arg raw =
     (if lo \<le> v \<and> v \<le> hi
      then Inr (take offset argsBuffer @ littleEndian v (bits div 8)
                  @ drop (offset + bits div 8) argsBuffer,
                offset + bits div 8)
      else if big \<and> \<not> sg \<and> v < 0 then Inl (NegativeUnsigned (argName arg) kind)
      else Inl (OutOfRange (argName arg) v
                  (if big then kind else resolveArgType (argType arg))))"
proof (cases big)
  case True
  with numeric_kinds [OF assms(1)] have "(kind, bits, sg) \<in>
     {(''u64'', 64, False), (''u128'', 128, False), (''i64'', 64, True), (''i128'', 128, True)}"
    by auto
  from encodeArg_big [OF this assms(2) _ assms(6,7,4,5)] assms(3) True
  show ?thesis by simp
next
  case False
  with numeric_kinds [OF assms(1)] have "(kind, bits, sg) \<in>
     {(''u8'', 8, False), (''u16'', 16, False), (''u32'', 32, False),
      (''i8'', 8, True), (''i16'', 16, True), (''i32'', 32, True)}"
    by auto
  from encodeArg_small [OF this assms(2) _ assms(6,7,4,5)] assms(3) False
  show ?thesis by simp
qed

text \<open>
  C5, as the code has it: for each of the ten integer kinds, of \<open>bits\<close> bits, a parsed
  value is accepted exactly when it lies in \<open>[0, 2^bits - 1]\<close> (unsigned) or in
  \<open>[-2^(bits-1), 2^(bits-1) - 1]\<close> (signed). An accepted value is written at the offset
  in \<open>bits div 8\<close> little-endian bytes. A value outside the range fails: with
  \<open>OutOfRange\<close>, whose message names the argument, the value and the type, except for a
  negative value of \<open>u64\<close> or \<open>u128\<close>, which fails with \<open>NegativeUnsigned\<close>, whose
  message names the argument and the type and not the value.
\<close>

theorem integer_range_validation:
  assumes "NUMERIC_TYPE_INFO kind = Some (bits, sg, big)"
    and "js_toLowerCase (resolveArgType (argType arg)) = kind"
    and "(if big then parseBigIntInput raw (argName arg)
          else parseIntegerInput toNumber raw (argName arg)) = Inr v"
    and "lo = (if sg then - (2 ^ (bits - 1)) else 0)"
    and "hi = (if sg then 2 ^ (bits - 1) - 1 else 2 ^ bits - 1)"
    and "length argsBuffer = 1024" and "offset + bits div 8 \<le> 1024"
  shows "encodeArg toNumber argsBuffer offset arg raw =
     (if lo \<le> v \<and> v \<le> hi
      then Inr (take offset argsBuffer @ littleEndian v (bits div 8)
                  @ drop (offset + bits div 8) argsBuffer,
                offset + bits div 8)
      else if big \<and> \<not> sg \<and> v < 0 then Inl (NegativeUnsigned (argName arg) kind)
      else Inl (OutOfRange (argName arg) v
                  (if big then kind else resolveArgType (argType arg))))
    \<and> errorMessage (OutOfRange a x t) =
          ''['' @ a @ ''] Value '' @ show_int x @ '' is out of range for '' @ t
    \<and> errorMessage (NegativeUnsigned a t) =
          ''['' @ a @ ''] '' @ t @ '' must be greater than or equal to 0''"
  using encodeArg_integer [OF assms] by simp

text \<open>\<open>u8\<close> at offset 8: \<open>"255"\<close> is the byte \<open>FF\<close>, \<open>"256"\<close> is out of range.\<close>

theorem integer_range_validation_witness:
  "encodeArg (\<lambda>t. Not_Finite) (replicate 1024 0) 8
     \<lparr>argName = ''x'', argType = IdlString ''u8''\<rparr> (Some ''255'') =
     Inr (replicate 8 0 @ [0xFF] @ replicate 1015 0, 9)
   \<and> encodeArg (\<lambda>t. Not_Finite) (replicate 1024 0) 8
     \<lparr>argName = ''x'', argType = IdlString ''u8''\<rparr> (Some ''256'') =
     Inl (OutOfRange ''x'' 256 ''u8'')
   \<and> errorMessage (OutOfRange ''x'' 256 ''u8'') = ''[x] Value 256 is out of range for u8''"
proof -
  let ?a = "\<lparr>argName = ''x'', argType = IdlString ''u8''\<rparr>"
  let ?buf = "replicate 1024 0 :: buffer"
  let ?n = "\<lambda>t :: string. Not_Finite"
  have i: "NUMERIC_TYPE_INFO ''u8'' = Some (8, False, False)"
    and t: "js_toLowerCase (resolveArgType (argType ?a)) = ''u8''"
    and p1: "(if False then parseBigIntInput (Some ''255'') (argName ?a)
          else parseIntegerInput ?n (Some ''255'') (argName ?a)) = Inr 255"
    and p2: "(if False then parseBigIntInput (Some ''256'') (argName ?a)
          else parseIntegerInput ?n (Some ''256'') (argName ?a)) = Inr 256"
    by code_simp+
  have l: "length ?buf = 1024" and r: "(8::nat) + 8 div 8 \<le> 1024" by simp_all
  have b: "littleEndian 255 (Suc 0) = [0xFF]" by code_simp
  have m: "show_int 256 = ''256''" by code_simp
  from integer_range_validation [OF i t p1 refl refl l r, of "''x''" 256 "''u8''"]
    integer_range_validation [OF i t p2 refl refl l r, of "''x''" 256 "''u8''"]
  show ?thesis by (simp add: b m)
qed

text \<open>
  \<open>-1\<close> is one below the lower bound of \<open>u64\<close>; the message of the error does not
  name the value.
\<close>

theorem negative_unsigned_counterexample:
  "encodeArg (\<lambda>t. Not_Finite) (replicate 1024 0) 8
     \<lparr>argName = ''amount'', argType = IdlString ''u64''\<rparr> (Some ''-1'') =
     Inl (NegativeUnsigned ''amount'' ''u64'')
   \<and> errorMessage (NegativeUnsigned ''amount'' ''u64'') =
       ''[amount] u64 must be greater than or equal to 0''"
  by code_simp

end
